theory Spec2Isabelle
  imports Main "HOL-Library.Word" "HOL-Library.Signed_Division"
    "HOL-Library.Char_ord" "HOL-Library.List_Lexorder"
begin

unbundle bit_operations_syntax

section \<open>Expression graph and wires (operations.h, wire.h)\<close>

text \<open>
  A \<^verbatim>\<open>const Wire*\<close> is an address into the store of wires, or null (\<open>None\<close>).
  The store is the list of all \<^verbatim>\<open>Wire\<close> objects that exist; an address that is not
  below its length is a dangling pointer. A \<^verbatim>\<open>shared_ptr<ExprNode>\<close> is a node or
  null; nodes are immutable once built, so a shared node is the same value at each of
  its parents. \<^verbatim>\<open>long long\<close> is a 64-bit word read as two's complement.
\<close>

type_synonym addr = nat
type_synonym i64 = "64 word"

datatype OpType =
    Constant | WireRef
  | Add | Sub | Mul | Div | Mod
  | BitAnd | BitOr | BitXor | BitNot
  | Neg | Shl | Shr
  | LogAnd | LogOr | LogNot
  | Eq | Ne | Lt | Le | Gt | Ge
  | Select

datatype ExprNode =
  ExprNode (op: OpType) (constant_value: i64) (wire: "addr option")
    (a: "ExprNode option") (b: "ExprNode option") (c: "ExprNode option")

record Wire =
  name :: string
  committed_value :: i64
  comb_expr :: "ExprNode option"
  next_expr :: "ExprNode option"

type_synonym store = "Wire list"

text \<open>
  What the C++ leaves undefined is an error value of the model: a null or dangling
  pointer that is dereferenced, the one quotient that does not fit
  (\<open>-2^63 / -1\<close>, and the same operands of \<^verbatim>\<open>%\<close>), and a shift count outside \<open>0..63\<close>.
  \<open>OutOfFuel\<close> stands for a recursion deeper than the fuel given; a call that is
  \<open>OutOfFuel\<close> for every amount of fuel is a call that never returns.
\<close>

datatype error = OutOfFuel | NullDeref | DanglingWire | DivOverflow | ShiftRange

definition bindE :: "error + 'a \<Rightarrow> ('a \<Rightarrow> error + 'b) \<Rightarrow> error + 'b" where
  "bindE m f = (case m of Inl e \<Rightarrow> Inl e | Inr x \<Rightarrow> f x)"

section \<open>Evaluation engine (simulate.cpp, lines 9 to 60)\<close>

text \<open>
  \<open>comb_cache\<close> is the only field of the C++ \<^verbatim>\<open>EvalContext\<close>. \<open>evaluated\<close> is a ghost
  field that the code does not have: it logs, in order, every wire whose combinational
  root \<^verbatim>\<open>wire_value\<close> starts to evaluate (line 19). No function reads it.
\<close>

record EvalContext =
  comb_cache :: "addr \<rightharpoonup> i64"
  evaluated :: "addr list"

definition empty_ctx :: EvalContext where
  "empty_ctx = \<lparr>comb_cache = Map.empty, evaluated = []\<rparr>"

text \<open>\<^verbatim>\<open>unordered_map::emplace\<close> does nothing when the key is present.\<close>

definition emplace :: "addr \<Rightarrow> i64 \<Rightarrow> EvalContext \<Rightarrow> EvalContext" where
  "emplace w v ctx =
     (case comb_cache ctx w of
        Some _ \<Rightarrow> ctx
      | None \<Rightarrow> ctx\<lparr>comb_cache := (comb_cache ctx)(w \<mapsto> v)\<rparr>)"

definition truthy :: "i64 \<Rightarrow> i64" where
  "truthy v = (if v \<noteq> 0 then 1 else 0)"

definition of_bool64 :: "bool \<Rightarrow> i64" where
  "of_bool64 p = (if p then 1 else 0)"

definition int64_min :: i64 where
  "int64_min = push_bit 63 1"

text \<open>C++ \<^verbatim>\<open>/\<close> and \<^verbatim>\<open>%\<close> on \<^verbatim>\<open>long long\<close>, for a divisor that is not 0: truncation towards
  zero, undefined when the quotient is not representable.\<close>

definition div64 :: "i64 \<Rightarrow> i64 \<Rightarrow> error + i64" where
  "div64 x d = (if x = int64_min \<and> d = - 1 then Inl DivOverflow
                else Inr (word_of_int (sint x sdiv sint d)))"

definition mod64 :: "i64 \<Rightarrow> i64 \<Rightarrow> error + i64" where
  "mod64 x d = (if x = int64_min \<and> d = - 1 then Inl DivOverflow
                else Inr (word_of_int (sint x smod sint d)))"

text \<open>Shifts: the count is used as it is; outside \<open>0..63\<close> the C++ is undefined. Inside,
  \<^verbatim>\<open><<\<close> shifts the bit pattern and \<^verbatim>\<open>>>\<close> is the arithmetic shift.\<close>

definition shl64 :: "i64 \<Rightarrow> i64 \<Rightarrow> error + i64" where
  "shl64 x s = (if 0 \<le>s s \<and> s <s 64 then Inr (push_bit (unat s) x) else Inl ShiftRange)"

definition shr64 :: "i64 \<Rightarrow> i64 \<Rightarrow> error + i64" where
  "shr64 x s = (if 0 \<le>s s \<and> s <s 64 then Inr (signed_drop_bit (unat s) x) else Inl ShiftRange)"

text \<open>
  The two operands of \<^verbatim>\<open>+ - * & | ^ == != < <= > >=\<close> are evaluated in an order the
  language does not fix. \<open>in_order r fa fb\<close> runs \<open>fb\<close> first when \<open>r\<close> holds and \<open>fa\<close> first
  otherwise, threading the context; every function below takes the choice for each
  case of the switch as the parameter \<open>rtl\<close>.
\<close>

definition in_order ::
  "bool \<Rightarrow> (EvalContext \<Rightarrow> error + i64 \<times> EvalContext) \<Rightarrow>
   (EvalContext \<Rightarrow> error + i64 \<times> EvalContext) \<Rightarrow> EvalContext \<Rightarrow>
   error + (i64 \<times> i64) \<times> EvalContext" where
  "in_order r fa fb ctx =
     (if r then
        bindE (fb ctx) (\<lambda>(y, c1). bindE (fa c1) (\<lambda>(x, c2). Inr ((x, y), c2)))
      else
        bindE (fa ctx) (\<lambda>(x, c1). bindE (fb c1) (\<lambda>(y, c2). Inr ((x, y), c2))))"

fun wire_value ::
    "(OpType \<Rightarrow> bool) \<Rightarrow> nat \<Rightarrow> store \<Rightarrow> addr option \<Rightarrow> EvalContext \<Rightarrow> error + i64 \<times> EvalContext"
  and eval_node ::
    "(OpType \<Rightarrow> bool) \<Rightarrow> nat \<Rightarrow> store \<Rightarrow> ExprNode option \<Rightarrow> EvalContext \<Rightarrow> error + i64 \<times> EvalContext"
where
  "wire_value rtl 0 h w ctx = Inl OutOfFuel"
| "wire_value rtl (Suc k) h None ctx = Inl NullDeref"
| "wire_value rtl (Suc k) h (Some w) ctx =
     (if length h \<le> w then Inl DanglingWire
      else case comb_expr (h ! w) of
        Some e \<Rightarrow>
          (case comb_cache ctx w of
             Some v \<Rightarrow> Inr (v, ctx)
           | None \<Rightarrow>
               bindE (eval_node rtl k h (Some e) (ctx\<lparr>evaluated := evaluated ctx @ [w]\<rparr>))
                 (\<lambda>(v, c1). Inr (v, emplace w v c1)))
      | None \<Rightarrow> Inr (committed_value (h ! w), ctx))"
| "eval_node rtl 0 h n ctx = Inl OutOfFuel"
| "eval_node rtl (Suc k) h None ctx = Inl NullDeref"
| "eval_node rtl (Suc k) h (Some n) ctx =
     (case op n of
        Constant \<Rightarrow> Inr (constant_value n, ctx)
      | WireRef \<Rightarrow> wire_value rtl k h (wire n) ctx
      | Add \<Rightarrow>
          bindE (in_order (rtl Add) (\<lambda>c. eval_node rtl k h (a n) c) (\<lambda>c. eval_node rtl k h (b n) c) ctx)
            (\<lambda>((x, y), c2). Inr (x + y, c2))
      | Sub \<Rightarrow>
          bindE (in_order (rtl Sub) (\<lambda>c. eval_node rtl k h (a n) c) (\<lambda>c. eval_node rtl k h (b n) c) ctx)
            (\<lambda>((x, y), c2). Inr (x - y, c2))
      | Mul \<Rightarrow>
          bindE (in_order (rtl Mul) (\<lambda>c. eval_node rtl k h (a n) c) (\<lambda>c. eval_node rtl k h (b n) c) ctx)
            (\<lambda>((x, y), c2). Inr (x * y, c2))
      | Div \<Rightarrow>
          bindE (eval_node rtl k h (b n) ctx) (\<lambda>(d, c1).
            if d = 0 then Inr (0, c1)
            else bindE (eval_node rtl k h (a n) c1) (\<lambda>(x, c2).
              bindE (div64 x d) (\<lambda>q. Inr (q, c2))))
      | Mod \<Rightarrow>
          bindE (eval_node rtl k h (b n) ctx) (\<lambda>(d, c1).
            if d = 0 then Inr (0, c1)
            else bindE (eval_node rtl k h (a n) c1) (\<lambda>(x, c2).
              bindE (mod64 x d) (\<lambda>q. Inr (q, c2))))
      | BitAnd \<Rightarrow>
          bindE (in_order (rtl BitAnd) (\<lambda>c. eval_node rtl k h (a n) c) (\<lambda>c. eval_node rtl k h (b n) c) ctx)
            (\<lambda>((x, y), c2). Inr (x AND y, c2))
      | BitOr \<Rightarrow>
          bindE (in_order (rtl BitOr) (\<lambda>c. eval_node rtl k h (a n) c) (\<lambda>c. eval_node rtl k h (b n) c) ctx)
            (\<lambda>((x, y), c2). Inr (x OR y, c2))
      | BitXor \<Rightarrow>
          bindE (in_order (rtl BitXor) (\<lambda>c. eval_node rtl k h (a n) c) (\<lambda>c. eval_node rtl k h (b n) c) ctx)
            (\<lambda>((x, y), c2). Inr (x XOR y, c2))
      | BitNot \<Rightarrow> bindE (eval_node rtl k h (a n) ctx) (\<lambda>(x, c1). Inr (NOT x, c1))
      | Neg \<Rightarrow> bindE (eval_node rtl k h (a n) ctx) (\<lambda>(x, c1). Inr (- x, c1))
      | Shl \<Rightarrow>
          bindE (eval_node rtl k h (a n) ctx) (\<lambda>(x, c1).
            bindE (eval_node rtl k h (b n) c1) (\<lambda>(s, c2).
              bindE (shl64 x s) (\<lambda>r. Inr (r, c2))))
      | Shr \<Rightarrow>
          bindE (eval_node rtl k h (a n) ctx) (\<lambda>(x, c1).
            bindE (eval_node rtl k h (b n) c1) (\<lambda>(s, c2).
              bindE (shr64 x s) (\<lambda>r. Inr (r, c2))))
      | LogAnd \<Rightarrow>
          bindE (eval_node rtl k h (a n) ctx) (\<lambda>(x, c1).
            if truthy x = 0 then Inr (0, c1)
            else bindE (eval_node rtl k h (b n) c1) (\<lambda>(y, c2).
              Inr (of_bool64 (truthy y \<noteq> 0), c2)))
      | LogOr \<Rightarrow>
          bindE (eval_node rtl k h (a n) ctx) (\<lambda>(x, c1).
            if truthy x \<noteq> 0 then Inr (1, c1)
            else bindE (eval_node rtl k h (b n) c1) (\<lambda>(y, c2).
              Inr (of_bool64 (truthy y \<noteq> 0), c2)))
      | LogNot \<Rightarrow>
          bindE (eval_node rtl k h (a n) ctx) (\<lambda>(x, c1). Inr (of_bool64 (truthy x = 0), c1))
      | Eq \<Rightarrow>
          bindE (in_order (rtl Eq) (\<lambda>c. eval_node rtl k h (a n) c) (\<lambda>c. eval_node rtl k h (b n) c) ctx)
            (\<lambda>((x, y), c2). Inr (of_bool64 (x = y), c2))
      | Ne \<Rightarrow>
          bindE (in_order (rtl Ne) (\<lambda>c. eval_node rtl k h (a n) c) (\<lambda>c. eval_node rtl k h (b n) c) ctx)
            (\<lambda>((x, y), c2). Inr (of_bool64 (x \<noteq> y), c2))
      | Lt \<Rightarrow>
          bindE (in_order (rtl Lt) (\<lambda>c. eval_node rtl k h (a n) c) (\<lambda>c. eval_node rtl k h (b n) c) ctx)
            (\<lambda>((x, y), c2). Inr (of_bool64 (x <s y), c2))
      | Le \<Rightarrow>
          bindE (in_order (rtl Le) (\<lambda>c. eval_node rtl k h (a n) c) (\<lambda>c. eval_node rtl k h (b n) c) ctx)
            (\<lambda>((x, y), c2). Inr (of_bool64 (x \<le>s y), c2))
      | Gt \<Rightarrow>
          bindE (in_order (rtl Gt) (\<lambda>c. eval_node rtl k h (a n) c) (\<lambda>c. eval_node rtl k h (b n) c) ctx)
            (\<lambda>((x, y), c2). Inr (of_bool64 (y <s x), c2))
      | Ge \<Rightarrow>
          bindE (in_order (rtl Ge) (\<lambda>c. eval_node rtl k h (a n) c) (\<lambda>c. eval_node rtl k h (b n) c) ctx)
            (\<lambda>((x, y), c2). Inr (of_bool64 (y \<le>s x), c2))
      | Select \<Rightarrow>
          bindE (eval_node rtl k h (a n) ctx) (\<lambda>(x, c1).
            if truthy x \<noteq> 0 then eval_node rtl k h (b n) c1
            else eval_node rtl k h (c n) c1))"

section \<open>Builders (operations.h)\<close>


definition Expr :: "i64 \<Rightarrow> ExprNode option" where
  "Expr v = Some (ExprNode Constant v None None None None)"

definition wireRef :: "addr option \<Rightarrow> ExprNode option" where
  "wireRef w = Some (ExprNode WireRef 0 w None None None)"

definition make_unary :: "OpType \<Rightarrow> ExprNode option \<Rightarrow> ExprNode option" where
  "make_unary o1 x = Some (ExprNode o1 0 None x None None)"

definition make_binary :: "OpType \<Rightarrow> ExprNode option \<Rightarrow> ExprNode option \<Rightarrow> ExprNode option" where
  "make_binary o1 x y = Some (ExprNode o1 0 None x y None)"

definition make_select :: "ExprNode option \<Rightarrow> ExprNode option \<Rightarrow> ExprNode option \<Rightarrow> ExprNode option" where
  "make_select cond t e = Some (ExprNode Select 0 None cond t e)"

text \<open>A wire as the constructor \<^verbatim>\<open>Wire(name, init)\<close> leaves it, then
  \<^verbatim>\<open>operator=\<close> and \<^verbatim>\<open>operator<<\<close>.\<close>

definition new_wire :: "string \<Rightarrow> i64 \<Rightarrow> Wire" where
  "new_wire nm init = \<lparr>name = nm, committed_value = init, comb_expr = None, next_expr = None\<rparr>"

definition assign_comb :: "Wire \<Rightarrow> ExprNode option \<Rightarrow> Wire" where
  "assign_comb w rhs = w\<lparr>comb_expr := rhs\<rparr>"

definition assign_next :: "Wire \<Rightarrow> ExprNode option \<Rightarrow> Wire" where
  "assign_next w rhs = w\<lparr>next_expr := rhs\<rparr>"

text \<open>The order in which no operand pair is swapped.\<close>

definition ltr :: "OpType \<Rightarrow> bool" where
  "ltr o1 = False"

text \<open>The order in which every operand pair is swapped.\<close>

definition right_to_left :: "OpType \<Rightarrow> bool" where
  "right_to_left o1 = True"

text \<open>A combinational loop, which the README warns about, behind a select that never
  takes it: \<^verbatim>\<open>w = w; r = If(1, 7, w);\<close>, at the addresses 0 and 1.\<close>

definition guard_store :: store where
  "guard_store =
     [assign_comb (new_wire ''w'' 0) (wireRef (Some 0)),
      assign_comb (new_wire ''r'' 0) (make_select (Expr 1) (Expr 7) (wireRef (Some 0)))]"

text \<open>The exact integer result of the three arithmetic operators, before any
  reduction to 64 bits.\<close>

definition exact_arith :: "OpType \<Rightarrow> int \<Rightarrow> int \<Rightarrow> int" where
  "exact_arith o1 x y = (if o1 = Add then x + y else if o1 = Sub then x - y else x * y)"


text \<open>The circuit of \<^verbatim>\<open>main.cpp\<close>: \<open>a = 1\<close>, \<open>b = 2\<close>, \<open>sum = a + b\<close>,
  \<open>acc << acc + sum\<close>, \<open>maxab = If(a > b, a, b)\<close>, at the addresses 0 to 4.\<close>

definition demo_store :: store where
  "demo_store =
     [assign_comb (new_wire ''a'' 0) (Expr 1),
      assign_comb (new_wire ''b'' 0) (Expr 2),
      assign_comb (new_wire ''sum'' 0) (make_binary Add (wireRef (Some 0)) (wireRef (Some 1))),
      assign_next (new_wire ''acc'' 0) (make_binary Add (wireRef (Some 3)) (wireRef (Some 2))),
      assign_comb (new_wire ''maxab'' 0)
        (make_select (make_binary Gt (wireRef (Some 0)) (wireRef (Some 1)))
           (wireRef (Some 0)) (wireRef (Some 1)))]"

text \<open>Two wires that carry one name.\<close>

definition dup_store :: store where
  "dup_store = [new_wire ''x'' 1, new_wire ''x'' 2]"


section \<open>Dependency closure (simulate.cpp, lines 62 to 91)\<close>

text \<open>
  A \<^verbatim>\<open>std::unordered_set<const Wire*>\<close> is a set of addresses. The order in which such
  a container is traversed is not fixed by the language: it is the parameter \<open>enum\<close>,
  which gives the traversal of a set (and of the key set of an \<^verbatim>\<open>unordered_map\<close>).
  The recursion of \<^verbatim>\<open>gather_from_expr\<close> runs on fuel.
\<close>

fun gather_from_expr :: "nat \<Rightarrow> store \<Rightarrow> ExprNode option \<Rightarrow> addr set \<Rightarrow> error + addr set" where
  "gather_from_expr 0 h n wires = Inl OutOfFuel"
| "gather_from_expr (Suc k) h None wires = Inr wires"
| "gather_from_expr (Suc k) h (Some n) wires =
     (if op n = WireRef \<and> wire n \<noteq> None then
        (case wire n of
           None \<Rightarrow> Inr wires
         | Some w \<Rightarrow>
             if w \<notin> wires then
               (if length h \<le> w then Inl DanglingWire
                else bindE (gather_from_expr k h (comb_expr (h ! w)) (insert w wires))
                       (\<lambda>s1. gather_from_expr k h (next_expr (h ! w)) s1))
             else Inr wires)
      else
        bindE (if a n \<noteq> None then gather_from_expr k h (a n) wires else Inr wires) (\<lambda>s1.
        bindE (if b n \<noteq> None then gather_from_expr k h (b n) s1 else Inr s1) (\<lambda>s2.
          if c n \<noteq> None then gather_from_expr k h (c n) s2 else Inr s2)))"

text \<open>Lines 86 and 87, for one wire of the snapshot.\<close>

definition gather_wire :: "nat \<Rightarrow> store \<Rightarrow> addr \<Rightarrow> addr set \<Rightarrow> error + addr set" where
  "gather_wire g h w wires =
     (if length h \<le> w then Inl DanglingWire
      else bindE (gather_from_expr g h (comb_expr (h ! w)) wires)
             (\<lambda>s1. gather_from_expr g h (next_expr (h ! w)) s1))"

text \<open>The \<^verbatim>\<open>for\<close> loop over the snapshot (lines 85 to 88).\<close>

fun gather_snapshot :: "nat \<Rightarrow> store \<Rightarrow> addr list \<Rightarrow> addr set \<Rightarrow> error + addr set" where
  "gather_snapshot g h [] wires = Inr wires"
| "gather_snapshot g h (w # ws) wires =
     bindE (gather_wire g h w wires) (\<lambda>s1. gather_snapshot g h ws s1)"

text \<open>The \<^verbatim>\<open>while\<close> loop (lines 82 to 89): \<open>g\<close> is the fuel of each gathering, the
  second number the fuel of the loop itself.\<close>

fun closure_loop ::
  "(addr set \<Rightarrow> addr list) \<Rightarrow> nat \<Rightarrow> nat \<Rightarrow> store \<Rightarrow> nat \<Rightarrow> addr set \<Rightarrow> error + addr set" where
  "closure_loop enum g 0 h prev wires = (if prev \<noteq> card wires then Inl OutOfFuel else Inr wires)"
| "closure_loop enum g (Suc k) h prev wires =
     (if prev \<noteq> card wires then
        bindE (gather_snapshot g h (enum wires) wires)
          (\<lambda>s1. closure_loop enum g k h (card wires) s1)
      else Inr wires)"

text \<open>Line 80: the targets that are not null.\<close>

fun insert_targets :: "addr option list \<Rightarrow> addr set \<Rightarrow> addr set" where
  "insert_targets [] wires = wires"
| "insert_targets (None # ts) wires = insert_targets ts wires"
| "insert_targets (Some w # ts) wires = insert_targets ts (insert w wires)"

definition closure_from_targets ::
  "(addr set \<Rightarrow> addr list) \<Rightarrow> nat \<Rightarrow> store \<Rightarrow> addr option list \<Rightarrow> error + addr set" where
  "closure_from_targets enum fuel h targets =
     closure_loop enum fuel fuel h 0 (insert_targets targets {})"

section \<open>Simulation driver (simulate.cpp, lines 93 to 136)\<close>

text \<open>
  The \<^verbatim>\<open>std::map<std::string, std::vector<long long>>\<close> is an association list kept in
  strictly increasing key order, the order in which a \<^verbatim>\<open>std::map\<close> is traversed.
  Strings are compared as \<^verbatim>\<open>std::string\<close> compares them: lexicographically, by
  character code. \<open>map_at k f m\<close> is \<^verbatim>\<open>m[k] = f(m[k])\<close>: \<^verbatim>\<open>operator[]\<close> finds the entry of
  \<open>k\<close> or inserts an empty vector in its place in the order.
\<close>

type_synonym history = "(string \<times> i64 list) list"

fun map_at :: "string \<Rightarrow> (i64 list \<Rightarrow> i64 list) \<Rightarrow> history \<Rightarrow> history" where
  "map_at k f [] = [(k, f [])]"
| "map_at k f ((k', vs) # m) =
     (if k = k' then (k', f vs) # m
      else if k < k' then (k, f []) # (k', vs) # m
      else (k', vs) # map_at k f m)"

definition deref :: "store \<Rightarrow> addr \<Rightarrow> error + Wire" where
  "deref h w = (if w < length h then Inr (h ! w) else Inl DanglingWire)"

text \<open>Lines 97 to 99: \<^verbatim>\<open>saved[w] = w->committed_value\<close>.\<close>

fun save_state :: "store \<Rightarrow> addr list \<Rightarrow> (addr \<rightharpoonup> i64) \<Rightarrow> error + (addr \<rightharpoonup> i64)" where
  "save_state h [] saved = Inr saved"
| "save_state h (w # ws) saved =
     bindE (deref h w) (\<lambda>wr. save_state h ws (saved(w \<mapsto> committed_value wr)))"

text \<open>Line 102: \<^verbatim>\<open>history[w->name] = {}\<close>.\<close>

fun init_history :: "store \<Rightarrow> addr list \<Rightarrow> history \<Rightarrow> error + history" where
  "init_history h [] hist = Inr hist"
| "init_history h (w # ws) hist =
     bindE (deref h w) (\<lambda>wr. init_history h ws (map_at (name wr) (\<lambda>_. []) hist))"

text \<open>Lines 107 to 110: the value of every wire, appended to its history.\<close>

fun record_values ::
  "(OpType \<Rightarrow> bool) \<Rightarrow> nat \<Rightarrow> store \<Rightarrow> addr list \<Rightarrow> history \<Rightarrow> EvalContext \<Rightarrow>
   error + history \<times> EvalContext" where
  "record_values rtl k h [] hist ctx = Inr (hist, ctx)"
| "record_values rtl k h (w # ws) hist ctx =
     bindE (wire_value rtl k h (Some w) ctx) (\<lambda>(v, c1).
       bindE (deref h w) (\<lambda>wr.
         record_values rtl k h ws (map_at (name wr) (\<lambda>vs. vs @ [v]) hist) c1))"

text \<open>Lines 112 to 118: the next value of every wire that has a registered definition,
  in the context that the recording left.\<close>

fun eval_next_values ::
  "(OpType \<Rightarrow> bool) \<Rightarrow> nat \<Rightarrow> store \<Rightarrow> addr list \<Rightarrow> (addr \<rightharpoonup> i64) \<Rightarrow> EvalContext \<Rightarrow>
   error + (addr \<rightharpoonup> i64) \<times> EvalContext" where
  "eval_next_values rtl k h [] next_values ctx = Inr (next_values, ctx)"
| "eval_next_values rtl k h (w # ws) next_values ctx =
     bindE (deref h w) (\<lambda>wr.
       case next_expr wr of
         Some e \<Rightarrow>
           bindE (eval_node rtl k h (Some e) ctx) (\<lambda>(nv, c1).
             eval_next_values rtl k h ws (next_values(w \<mapsto> nv)) c1)
       | None \<Rightarrow> eval_next_values rtl k h ws next_values ctx)"

text \<open>Lines 120 to 122 and 126 to 128: every entry of an \<^verbatim>\<open>unordered_map\<close> is written
  to its wire's committed value. The list is the traversal of the map's keys, so
  each key has an entry.\<close>

fun write_committed :: "(addr \<rightharpoonup> i64) \<Rightarrow> addr list \<Rightarrow> store \<Rightarrow> error + store" where
  "write_committed m [] h = Inr h"
| "write_committed m (w # ws) h =
     (case m w of
        None \<Rightarrow> write_committed m ws h
      | Some v \<Rightarrow>
          if w < length h then write_committed m ws (h[w := (h ! w)\<lparr>committed_value := v\<rparr>])
          else Inl DanglingWire)"

text \<open>One iteration of the loop of lines 104 to 123.\<close>

definition cycle ::
  "(addr set \<Rightarrow> addr list) \<Rightarrow> (OpType \<Rightarrow> bool) \<Rightarrow> nat \<Rightarrow> addr list \<Rightarrow> history \<times> store \<Rightarrow>
   error + history \<times> store" where
  "cycle enum rtl k all_wires st =
     (case st of (hist, h) \<Rightarrow>
        bindE (record_values rtl k h all_wires hist empty_ctx) (\<lambda>(hist1, c1).
          bindE (eval_next_values rtl k h all_wires Map.empty c1) (\<lambda>(next_values, c2).
            bindE (write_committed next_values (enum (dom next_values)) h) (\<lambda>h1.
              Inr (hist1, h1)))))"

fun run_cycles ::
  "(addr set \<Rightarrow> addr list) \<Rightarrow> (OpType \<Rightarrow> bool) \<Rightarrow> nat \<Rightarrow> addr list \<Rightarrow> nat \<Rightarrow> history \<times> store \<Rightarrow>
   error + history \<times> store" where
  "run_cycles enum rtl k all_wires 0 st = Inr st"
| "run_cycles enum rtl k all_wires (Suc t) st =
     bindE (cycle enum rtl k all_wires st) (\<lambda>st1. run_cycles enum rtl k all_wires t st1)"

text \<open>
  \<^verbatim>\<open>simulate\<close>. The result is the returned history and the store as the call leaves
  it. \<open>cycles\<close> is the \<^verbatim>\<open>int\<close> argument: the loop \<^verbatim>\<open>for (t = 0; t < cycles; ++t)\<close> runs
  \<open>nat cycles\<close> times, which is 0 for a negative count.
\<close>

definition simulate ::
  "(addr set \<Rightarrow> addr list) \<Rightarrow> (OpType \<Rightarrow> bool) \<Rightarrow> nat \<Rightarrow> store \<Rightarrow> addr option list \<Rightarrow> int \<Rightarrow> bool \<Rightarrow>
   error + history \<times> store" where
  "simulate enum rtl fuel h targets cycles restore_state =
     bindE (closure_from_targets enum fuel h targets) (\<lambda>wires.
       let all_wires = enum wires in
       bindE (if restore_state then save_state h all_wires Map.empty else Inr Map.empty) (\<lambda>saved.
         bindE (init_history h all_wires []) (\<lambda>hist0.
           bindE (run_cycles enum rtl fuel all_wires (nat cycles) (hist0, h)) (\<lambda>(hist, h1).
             bindE (if restore_state then write_committed saved (enum (dom saved)) h1 else Inr h1)
               (\<lambda>h2. Inr (hist, h2))))))"

text \<open>The overload for one wire (lines 134 to 136); a reference is never null.\<close>

definition simulate_wire ::
  "(addr set \<Rightarrow> addr list) \<Rightarrow> (OpType \<Rightarrow> bool) \<Rightarrow> nat \<Rightarrow> store \<Rightarrow> addr \<Rightarrow> int \<Rightarrow> bool \<Rightarrow>
   error + history \<times> store" where
  "simulate_wire enum rtl fuel h target cycles restore_state =
     simulate enum rtl fuel h [Some target] cycles restore_state"

section \<open>Notions the statements use\<close>

text \<open>A traversal order lists each element of a finite set once.\<close>

definition enumerates :: "(addr set \<Rightarrow> addr list) \<Rightarrow> bool" where
  "enumerates enum \<longleftrightarrow> (\<forall>S. finite S \<longrightarrow> set (enum S) = S \<and> distinct (enum S))"

text \<open>The traversal in increasing address order, one of the possible orders.\<close>

definition enum_sorted :: "addr set \<Rightarrow> addr list" where
  "enum_sorted S = sorted_list_of_set S"

definition enum_rev :: "addr set \<Rightarrow> addr list" where
  "enum_rev S = rev (sorted_list_of_set S)"

text \<open>
  The value of an expression in a committed state with no cache at all: the evaluation
  rules of \<^verbatim>\<open>eval_node\<close> and \<^verbatim>\<open>wire_value\<close> with every lookup and insertion of the cache
  taken out, so that a combinational wire is recomputed at each reference. \<open>unop\<close> and
  \<open>binop\<close> are the operators on values.
\<close>

definition unop :: "OpType \<Rightarrow> i64 \<Rightarrow> i64" where
  "unop o1 x = (if o1 = BitNot then NOT x else if o1 = Neg then - x else of_bool64 (truthy x = 0))"

definition binop :: "OpType \<Rightarrow> i64 \<Rightarrow> i64 \<Rightarrow> error + i64" where
  "binop o1 x y =
     (case o1 of
        Add \<Rightarrow> Inr (x + y) | Sub \<Rightarrow> Inr (x - y) | Mul \<Rightarrow> Inr (x * y)
      | Div \<Rightarrow> div64 x y | Mod \<Rightarrow> mod64 x y
      | BitAnd \<Rightarrow> Inr (x AND y) | BitOr \<Rightarrow> Inr (x OR y) | BitXor \<Rightarrow> Inr (x XOR y)
      | Shl \<Rightarrow> shl64 x y | Shr \<Rightarrow> shr64 x y
      | LogAnd \<Rightarrow> Inr (of_bool64 (truthy x \<noteq> 0 \<and> truthy y \<noteq> 0))
      | LogOr \<Rightarrow> Inr (of_bool64 (truthy x \<noteq> 0 \<or> truthy y \<noteq> 0))
      | Eq \<Rightarrow> Inr (of_bool64 (x = y)) | Ne \<Rightarrow> Inr (of_bool64 (x \<noteq> y))
      | Lt \<Rightarrow> Inr (of_bool64 (x <s y)) | Le \<Rightarrow> Inr (of_bool64 (x \<le>s y))
      | Gt \<Rightarrow> Inr (of_bool64 (y <s x)) | Ge \<Rightarrow> Inr (of_bool64 (y \<le>s x))
      | _ \<Rightarrow> Inr 0)"

fun naive_wire :: "nat \<Rightarrow> store \<Rightarrow> addr option \<Rightarrow> error + i64"
  and naive_node :: "nat \<Rightarrow> store \<Rightarrow> ExprNode option \<Rightarrow> error + i64"
where
  "naive_wire 0 h w = Inl OutOfFuel"
| "naive_wire (Suc k) h None = Inl NullDeref"
| "naive_wire (Suc k) h (Some w) =
     (if length h \<le> w then Inl DanglingWire
      else case comb_expr (h ! w) of
        Some e \<Rightarrow> naive_node k h (Some e)
      | None \<Rightarrow> Inr (committed_value (h ! w)))"
| "naive_node 0 h n = Inl OutOfFuel"
| "naive_node (Suc k) h None = Inl NullDeref"
| "naive_node (Suc k) h (Some n) =
     (if op n = Constant then Inr (constant_value n)
      else if op n = WireRef then naive_wire k h (wire n)
      else if op n = Select then
        bindE (naive_node k h (a n)) (\<lambda>x.
          if truthy x \<noteq> 0 then naive_node k h (b n) else naive_node k h (c n))
      else if op n = BitNot \<or> op n = Neg \<or> op n = LogNot then
        bindE (naive_node k h (a n)) (\<lambda>x. Inr (unop (op n) x))
      else if op n = Div \<or> op n = Mod then
        bindE (naive_node k h (b n)) (\<lambda>d.
          if d = 0 then Inr 0 else bindE (naive_node k h (a n)) (\<lambda>x. binop (op n) x d))
      else if op n = LogAnd then
        bindE (naive_node k h (a n)) (\<lambda>x.
          if truthy x = 0 then Inr 0 else bindE (naive_node k h (b n)) (\<lambda>y. binop (op n) x y))
      else if op n = LogOr then
        bindE (naive_node k h (a n)) (\<lambda>x.
          if truthy x \<noteq> 0 then Inr 1 else bindE (naive_node k h (b n)) (\<lambda>y. binop (op n) x y))
      else
        bindE (naive_node k h (a n)) (\<lambda>x.
          bindE (naive_node k h (b n)) (\<lambda>y. binop (op n) x y)))"

text \<open>An expression, or a wire, has the value \<open>v\<close> in the state \<open>h\<close>.\<close>

definition node_val :: "store \<Rightarrow> ExprNode option \<Rightarrow> i64 \<Rightarrow> bool" where
  "node_val h n v \<longleftrightarrow> (\<exists>k. naive_node k h n = Inr v)"

definition wire_val :: "store \<Rightarrow> addr \<Rightarrow> i64 \<Rightarrow> bool" where
  "wire_val h w v \<longleftrightarrow> (\<exists>k. naive_wire k h (Some w) = Inr v)"

text \<open>Every cached value is the value of its wire.\<close>

definition cache_ok :: "store \<Rightarrow> EvalContext \<Rightarrow> bool" where
  "cache_ok h ctx \<longleftrightarrow> (\<forall>w v. comb_cache ctx w = Some v \<longrightarrow> wire_val h w v)"

text \<open>
  The wires an expression refers to directly: the wire of a reference node, and the
  references of the children of any other node.
\<close>

fun refs :: "ExprNode \<Rightarrow> addr set" where
  "refs (ExprNode o1 v w x y z) =
     (if o1 = WireRef \<and> w \<noteq> None then set_option w
      else (case x of None \<Rightarrow> {} | Some n \<Rightarrow> refs n)
         \<union> (case y of None \<Rightarrow> {} | Some n \<Rightarrow> refs n)
         \<union> (case z of None \<Rightarrow> {} | Some n \<Rightarrow> refs n))"

definition refs_of :: "ExprNode option \<Rightarrow> addr set" where
  "refs_of n = (case n of None \<Rightarrow> {} | Some e \<Rightarrow> refs e)"

text \<open>
  The nodes of an expression that \<^verbatim>\<open>gather_from_expr\<close> visits: the node itself and, unless
  it is a reference to a wire, the nodes of its three operands.
\<close>

fun walked :: "ExprNode \<Rightarrow> ExprNode set" where
  "walked (ExprNode o1 v w x y z) =
     insert (ExprNode o1 v w x y z)
       (if o1 = WireRef \<and> w \<noteq> None then {}
        else (case x of None \<Rightarrow> {} | Some n \<Rightarrow> walked n)
           \<union> (case y of None \<Rightarrow> {} | Some n \<Rightarrow> walked n)
           \<union> (case z of None \<Rightarrow> {} | Some n \<Rightarrow> walked n))"

definition walked_of :: "ExprNode option \<Rightarrow> ExprNode set" where
  "walked_of n = (case n of None \<Rightarrow> {} | Some e \<Rightarrow> walked e)"

text \<open>The wires that the two definitions of the wire at \<open>w\<close> refer to.\<close>

definition wire_refs :: "store \<Rightarrow> addr \<Rightarrow> addr set" where
  "wire_refs h w = (if w < length h then refs_of (comb_expr (h ! w)) \<union> refs_of (next_expr (h ! w)) else {})"

text \<open>A set is closed when it holds every wire that a member's definitions refer to.\<close>

definition closed :: "store \<Rightarrow> addr set \<Rightarrow> bool" where
  "closed h S \<longleftrightarrow> (\<forall>w \<in> S. wire_refs h w \<subseteq> S)"

text \<open>The wires reachable from a set of wires by following references.\<close>

inductive_set reach :: "store \<Rightarrow> addr set \<Rightarrow> addr set" for h :: store and R :: "addr set" where
  base: "w \<in> R \<Longrightarrow> w \<in> reach h R"
| step: "w \<in> reach h R \<Longrightarrow> v \<in> wire_refs h w \<Longrightarrow> v \<in> reach h R"

text \<open>The targets that are not null, as a set.\<close>

definition target_set :: "addr option list \<Rightarrow> addr set" where
  "target_set targets = {w. Some w \<in> set targets}"


text \<open>The wires of a set carry distinct names.\<close>

definition distinct_names :: "store \<Rightarrow> addr set \<Rightarrow> bool" where
  "distinct_names h S \<longleftrightarrow> inj_on (\<lambda>w. name (h ! w)) S"

text \<open>The entry of a name in a history; no entry reads as the empty sequence.\<close>

definition history_of :: "history \<Rightarrow> string \<Rightarrow> i64 list" where
  "history_of hist k = (case map_of hist k of None \<Rightarrow> [] | Some vs \<Rightarrow> vs)"

text \<open>One result is at least as defined as another: what the first returns, the second
  returns too. More fuel gives a result at least as defined.\<close>

definition res_le :: "error + 'a \<Rightarrow> error + 'a \<Rightarrow> bool" where
  "res_le r r' \<longleftrightarrow> (\<forall>x. r = Inr x \<longrightarrow> r' = Inr x)"





text \<open>
  Fuel that is enough for the closure computation: \<open>node_count\<close> is the number of nodes
  of an expression, \<open>expr_bound\<close> exceeds the size of the two definitions of any wire,
  and \<open>unseen h S\<close> counts the wires of the store that are not yet in the set.
\<close>

fun node_count :: "ExprNode \<Rightarrow> nat" where
  "node_count (ExprNode o1 v w x y z) =
     Suc ((case x of None \<Rightarrow> 0 | Some n \<Rightarrow> node_count n)
        + (case y of None \<Rightarrow> 0 | Some n \<Rightarrow> node_count n)
        + (case z of None \<Rightarrow> 0 | Some n \<Rightarrow> node_count n))"

definition count_of :: "ExprNode option \<Rightarrow> nat" where
  "count_of n = (case n of None \<Rightarrow> 0 | Some e \<Rightarrow> node_count e)"

definition expr_bound :: "store \<Rightarrow> nat" where
  "expr_bound h = Suc (sum_list (map (\<lambda>w. count_of (comb_expr w) + count_of (next_expr w)) h))"

definition closure_fuel :: "store \<Rightarrow> nat" where
  "closure_fuel h = Suc (length h) * expr_bound h"

definition unseen :: "store \<Rightarrow> addr set \<Rightarrow> nat" where
  "unseen h S = card ({..<length h} - S)"

text \<open>What one gathering does to the set: it keeps it, adds the wires \<open>R\<close> that the
  expression refers to, adds nothing that is not reachable from them, and every wire
  it adds exists.\<close>

definition gathered :: "store \<Rightarrow> addr set \<Rightarrow> addr set \<Rightarrow> addr set \<Rightarrow> bool" where
  "gathered h R S S' \<longleftrightarrow>
     S \<subseteq> S' \<and> R \<subseteq> S' \<and> S' \<subseteq> S \<union> reach h R \<and> (\<forall>w\<in>S' - S. w < length h) \<and>
     (finite S \<longrightarrow> finite S')"

text \<open>
  What one cycle does, stated with the values of the wires and not with the
  evaluator. With \<open>V w\<close> the value of the wire \<open>w\<close> and \<open>N w\<close> the value of its
  registered root, both in the state \<open>h\<close> at the start of the cycle: \<open>record_spec\<close> is
  the history after the cycle, \<open>next_spec\<close> the map of next values, \<open>commit_spec\<close> the
  store after a map of values has been written, and \<open>next_state\<close> the store after the
  cycle. \<open>cycle_rel\<close> relates the history and store before a cycle to those after it,
  \<open>run_rel\<close> does so for \<open>n\<close> cycles in a row.
\<close>

definition record_spec :: "store \<Rightarrow> (addr \<Rightarrow> i64) \<Rightarrow> addr list \<Rightarrow> history \<Rightarrow> history" where
  "record_spec h V ws hist = fold (\<lambda>w m. map_at (name (h ! w)) (\<lambda>vs. vs @ [V w]) m) ws hist"

definition next_spec ::
  "store \<Rightarrow> (addr \<Rightarrow> i64) \<Rightarrow> addr set \<Rightarrow> (addr \<rightharpoonup> i64) \<Rightarrow> (addr \<rightharpoonup> i64)" where
  "next_spec h N S nv = (\<lambda>w. if w \<in> S \<and> next_expr (h ! w) \<noteq> None then Some (N w) else nv w)"

definition commit_spec :: "(addr \<rightharpoonup> i64) \<Rightarrow> addr set \<Rightarrow> store \<Rightarrow> store" where
  "commit_spec m S h =
     map (\<lambda>i. case m i of
                 Some v \<Rightarrow> if i \<in> S then (h ! i)\<lparr>committed_value := v\<rparr> else h ! i
               | None \<Rightarrow> h ! i) [0..<length h]"

definition next_state :: "store \<Rightarrow> (addr \<Rightarrow> i64) \<Rightarrow> addr set \<Rightarrow> store" where
  "next_state h N S =
     map (\<lambda>i. if i \<in> S \<and> next_expr (h ! i) \<noteq> None then (h ! i)\<lparr>committed_value := N i\<rparr>
               else h ! i) [0..<length h]"

definition cycle_rel :: "store \<Rightarrow> addr list \<Rightarrow> history \<Rightarrow> history \<Rightarrow> store \<Rightarrow> bool" where
  "cycle_rel h ws hist hist' h' \<longleftrightarrow>
     (\<exists>V N. (\<forall>w\<in>set ws. w < length h \<and> wire_val h w (V w) \<and>
                (\<forall>e. next_expr (h ! w) = Some e \<longrightarrow> node_val h (Some e) (N w))) \<and>
             hist' = record_spec h V ws hist \<and> h' = next_state h N (set ws))"

fun run_rel :: "addr list \<Rightarrow> nat \<Rightarrow> history \<times> store \<Rightarrow> history \<times> store \<Rightarrow> bool" where
  "run_rel ws 0 st st' \<longleftrightarrow> st' = st"
| "run_rel ws (Suc n) st st' \<longleftrightarrow>
     (\<exists>hist1 h1. cycle_rel (snd st) ws (fst st) hist1 h1 \<and> run_rel ws n (hist1, h1) st')"

text \<open>Two stores hold the same circuit when they differ in committed values only.
  \<open>save_spec\<close> is the snapshot of the committed values of a set of wires, \<open>init_spec\<close> the
  history with an empty entry for the name of each wire.\<close>

definition same_circuit :: "store \<Rightarrow> store \<Rightarrow> bool" where
  "same_circuit h h' \<longleftrightarrow>
     length h' = length h \<and> (\<forall>i<length h. \<exists>v. h' ! i = (h ! i)\<lparr>committed_value := v\<rparr>)"

definition save_spec :: "store \<Rightarrow> addr set \<Rightarrow> (addr \<rightharpoonup> i64)" where
  "save_spec h S = (\<lambda>w. if w \<in> S then Some (committed_value (h ! w)) else None)"

definition init_spec :: "store \<Rightarrow> addr list \<Rightarrow> history \<Rightarrow> history" where
  "init_spec h ws hist = fold (\<lambda>w m. map_at (name (h ! w)) (\<lambda>_. []) m) ws hist"

section \<open>Fuel, and evaluation with and without the cache\<close>

lemma bindE_Inr [simp]: "bindE (Inr x) f = f x"
  by (simp add: bindE_def)

lemma bindE_Inl [simp]: "bindE (Inl e) f = Inl e"
  by (simp add: bindE_def)

lemma bindE_eq_Inr: "bindE m f = Inr r \<longleftrightarrow> (\<exists>x. m = Inr x \<and> f x = Inr r)"
  by (cases m) simp_all

lemma in_order_eq_Inr:
  "in_order r fa fb ctx = Inr ((x, y), c2) \<longleftrightarrow>
     (if r then (\<exists>c1. fb ctx = Inr (y, c1) \<and> fa c1 = Inr (x, c2))
      else (\<exists>c1. fa ctx = Inr (x, c1) \<and> fb c1 = Inr (y, c2)))"
  by (auto simp: in_order_def bindE_eq_Inr)

lemma eval_node_Suc:
  "eval_node rtl (Suc k) h (Some n) ctx =
     (if op n = Constant then Inr (constant_value n, ctx)
      else if op n = WireRef then wire_value rtl k h (wire n) ctx
      else if op n = Select then
        bindE (eval_node rtl k h (a n) ctx) (\<lambda>(x, c1).
          if truthy x \<noteq> 0 then eval_node rtl k h (b n) c1 else eval_node rtl k h (c n) c1)
      else if op n = BitNot \<or> op n = Neg \<or> op n = LogNot then
        bindE (eval_node rtl k h (a n) ctx) (\<lambda>(x, c1). Inr (unop (op n) x, c1))
      else if op n = Div \<or> op n = Mod then
        bindE (eval_node rtl k h (b n) ctx) (\<lambda>(d, c1).
          if d = 0 then Inr (0, c1)
          else bindE (eval_node rtl k h (a n) c1) (\<lambda>(x, c2).
            bindE (binop (op n) x d) (\<lambda>q. Inr (q, c2))))
      else if op n = LogAnd then
        bindE (eval_node rtl k h (a n) ctx) (\<lambda>(x, c1).
          if truthy x = 0 then Inr (0, c1)
          else bindE (eval_node rtl k h (b n) c1) (\<lambda>(y, c2).
            bindE (binop (op n) x y) (\<lambda>q. Inr (q, c2))))
      else if op n = LogOr then
        bindE (eval_node rtl k h (a n) ctx) (\<lambda>(x, c1).
          if truthy x \<noteq> 0 then Inr (1, c1)
          else bindE (eval_node rtl k h (b n) c1) (\<lambda>(y, c2).
            bindE (binop (op n) x y) (\<lambda>q. Inr (q, c2))))
      else
        bindE (in_order (op n \<noteq> Shl \<and> op n \<noteq> Shr \<and> rtl (op n))
                 (\<lambda>c. eval_node rtl k h (a n) c) (\<lambda>c. eval_node rtl k h (b n) c) ctx)
          (\<lambda>((x, y), c2). bindE (binop (op n) x y) (\<lambda>q. Inr (q, c2))))"
proof (cases "op n")
  case LogAnd
  then show ?thesis
    by (auto simp: binop_def bindE_def of_bool64_def intro!: arg_cong2 [where f = case_sum] split: sum.splits)
next
  case LogOr
  then show ?thesis
    by (auto simp: binop_def bindE_def of_bool64_def split: sum.splits)
next
  case Shl
  then show ?thesis by (simp add: binop_def in_order_def bindE_def split: sum.splits prod.splits)
next
  case Shr
  then show ?thesis by (simp add: binop_def in_order_def bindE_def split: sum.splits prod.splits)
qed (simp_all add: binop_def unop_def bindE_def split: sum.splits prod.splits)

lemma res_le_refl: "res_le r r"
  by (simp add: res_le_def)

lemma res_le_Inl: "res_le (Inl e) r"
  by (simp add: res_le_def)

lemma res_le_trans: "res_le r s \<Longrightarrow> res_le s t \<Longrightarrow> res_le r t"
  by (simp add: res_le_def)

lemma res_leD: "res_le r r' \<Longrightarrow> r = Inr x \<Longrightarrow> r' = Inr x"
  by (simp add: res_le_def)

lemma res_le_bindE:
  "res_le m m' \<Longrightarrow> (\<And>x. res_le (f x) (f' x)) \<Longrightarrow> res_le (bindE m f) (bindE m' f')"
  by (cases m) (auto simp: res_le_def)

lemma res_le_if:
  "(p \<Longrightarrow> res_le x x') \<Longrightarrow> (\<not> p \<Longrightarrow> res_le y y') \<Longrightarrow>
   res_le (if p then x else y) (if p then x' else y')"
  by simp

lemma res_le_case_prod:
  "(\<And>x y. res_le (f x y) (f' x y)) \<Longrightarrow> res_le (case_prod f p) (case_prod f' p)"
  by (cases p) simp

lemma res_le_case_option:
  "res_le x x' \<Longrightarrow> (\<And>y. res_le (f y) (f' y)) \<Longrightarrow> res_le (case_option x f p) (case_option x' f' p)"
  by (cases p) simp_all

lemma res_le_in_order:
  "(\<And>c. res_le (fa c) (fa' c)) \<Longrightarrow> (\<And>c. res_le (fb c) (fb' c)) \<Longrightarrow>
   res_le (in_order r fa fb ctx) (in_order r fa' fb' ctx)"
  unfolding in_order_def
  by (intro res_le_if res_le_bindE res_le_case_prod res_le_refl)

lemmas res_le_intros =
  res_le_bindE res_le_if res_le_case_prod res_le_case_option res_le_in_order

lemma eval_mono_Suc:
  "res_le (wire_value rtl k h w ctx) (wire_value rtl (Suc k) h w ctx) \<and>
   res_le (eval_node rtl k h n ctx) (eval_node rtl (Suc k) h n ctx)"
proof (induction k arbitrary: w n ctx)
  case 0
  show ?case by (simp add: res_le_Inl)
next
  case (Suc k)
  have W: "res_le (wire_value rtl k h w ctx) (wire_value rtl (Suc k) h w ctx)" for w ctx
    using Suc by blast
  have E: "res_le (eval_node rtl k h n ctx) (eval_node rtl (Suc k) h n ctx)" for n ctx
    using Suc by blast
  have 1: "res_le (wire_value rtl (Suc k) h w ctx) (wire_value rtl (Suc (Suc k)) h w ctx)"
  proof (cases w)
    case None
    then show ?thesis by (simp add: res_le_refl)
  next
    case (Some x)
    show ?thesis unfolding Some wire_value.simps
      by (intro res_le_intros E res_le_refl)
  qed
  have 2: "res_le (eval_node rtl (Suc k) h n ctx) (eval_node rtl (Suc (Suc k)) h n ctx)"
  proof (cases n)
    case None
    then show ?thesis by (simp add: res_le_refl)
  next
    case (Some x)
    show ?thesis unfolding Some eval_node_Suc
      by (intro res_le_intros E W res_le_refl)
  qed
  show ?case using 1 2 by blast
qed

lemma naive_mono_Suc:
  "res_le (naive_wire k h w) (naive_wire (Suc k) h w) \<and>
   res_le (naive_node k h n) (naive_node (Suc k) h n)"
proof (induction k arbitrary: w n)
  case 0
  show ?case by (simp add: res_le_Inl)
next
  case (Suc k)
  have W: "res_le (naive_wire k h w) (naive_wire (Suc k) h w)" for w
    using Suc by blast
  have E: "res_le (naive_node k h n) (naive_node (Suc k) h n)" for n
    using Suc by blast
  have 1: "res_le (naive_wire (Suc k) h w) (naive_wire (Suc (Suc k)) h w)"
  proof (cases w)
    case None
    then show ?thesis by (simp add: res_le_refl)
  next
    case (Some x)
    show ?thesis unfolding Some naive_wire.simps
      by (intro res_le_intros E res_le_refl)
  qed
  have 2: "res_le (naive_node (Suc k) h n) (naive_node (Suc (Suc k)) h n)"
  proof (cases n)
    case None
    then show ?thesis by (simp add: res_le_refl)
  next
    case (Some x)
    show ?thesis unfolding Some naive_node.simps
      by (intro res_le_intros E W res_le_refl)
  qed
  show ?case using 1 2 by blast
qed


lemma eval_node_mono: "k \<le> k' \<Longrightarrow> res_le (eval_node rtl k h n ctx) (eval_node rtl k' h n ctx)"
  by (induction k' rule: dec_induct) (auto intro: res_le_refl res_le_trans eval_mono_Suc [THEN conjunct2])

lemma wire_value_mono: "k \<le> k' \<Longrightarrow> res_le (wire_value rtl k h w ctx) (wire_value rtl k' h w ctx)"
  by (induction k' rule: dec_induct) (auto intro: res_le_refl res_le_trans eval_mono_Suc [THEN conjunct1])

lemma naive_node_mono: "k \<le> k' \<Longrightarrow> res_le (naive_node k h n) (naive_node k' h n)"
  by (induction k' rule: dec_induct) (auto intro: res_le_refl res_le_trans naive_mono_Suc [THEN conjunct2])

lemma naive_wire_mono: "k \<le> k' \<Longrightarrow> res_le (naive_wire k h w) (naive_wire k' h w)"
  by (induction k' rule: dec_induct) (auto intro: res_le_refl res_le_trans naive_mono_Suc [THEN conjunct1])

lemma node_val_from: "node_val h n v \<longleftrightarrow> (\<exists>k0. \<forall>k\<ge>k0. naive_node k h n = Inr v)"
  unfolding node_val_def using naive_node_mono [THEN res_leD] by blast

lemma wire_val_from: "wire_val h w v \<longleftrightarrow> (\<exists>k0. \<forall>k\<ge>k0. naive_wire k h (Some w) = Inr v)"
  unfolding wire_val_def using naive_wire_mono [THEN res_leD] by blast

lemma node_val_unique: "node_val h n v \<Longrightarrow> node_val h n v' \<Longrightarrow> v = v'"
  unfolding node_val_from
  by (metis Inr_inject le_cases)

lemma wire_val_unique: "wire_val h w v \<Longrightarrow> wire_val h w v' \<Longrightarrow> v = v'"
  unfolding wire_val_from
  by (metis Inr_inject le_cases)

lemma node_valI: "naive_node k h n = Inr v \<Longrightarrow> node_val h n v"
  unfolding node_val_def by blast

lemma wire_valI: "naive_wire k h (Some w) = Inr v \<Longrightarrow> wire_val h w v"
  unfolding wire_val_def by blast

text \<open>The rules of the value of an expression, one for each way a node is evaluated.\<close>

lemma node_val_Constant: "op n = Constant \<Longrightarrow> node_val h (Some n) (constant_value n)"
  by (rule node_valI [of 1]) simp

lemma node_val_WireRef:
  assumes "op n = WireRef" "wire n = Some w" "wire_val h w v"
  shows "node_val h (Some n) v"
proof -
  from assms(3) obtain k where "naive_wire k h (Some w) = Inr v"
    unfolding wire_val_def by blast
  then show ?thesis using assms(1,2) by (intro node_valI [of "Suc k"]) simp
qed

lemma node_val_one:
  assumes "node_val h x vx"
    and "\<And>k. naive_node k h x = Inr vx \<Longrightarrow> naive_node (Suc k) h (Some n) = Inr v"
  shows "node_val h (Some n) v"
  using assms unfolding node_val_def by blast

lemma node_val_two:
  assumes "node_val h x vx" "node_val h y vy"
    and "\<And>k. naive_node k h x = Inr vx \<Longrightarrow> naive_node k h y = Inr vy \<Longrightarrow>
           naive_node (Suc k) h (Some n) = Inr v"
  shows "node_val h (Some n) v"
proof -
  from assms(1) obtain k1 where 1: "\<forall>k\<ge>k1. naive_node k h x = Inr vx"
    unfolding node_val_from by blast
  from assms(2) obtain k2 where 2: "\<forall>k\<ge>k2. naive_node k h y = Inr vy"
    unfolding node_val_from by blast
  have "naive_node (Suc (max k1 k2)) h (Some n) = Inr v"
    using 1 2 by (intro assms(3)) simp_all
  then show ?thesis by (rule node_valI)
qed

lemma node_val_Select:
  assumes "op n = Select" "node_val h (a n) x"
    "node_val h (if truthy x \<noteq> 0 then b n else c n) v"
  shows "node_val h (Some n) v"
  using assms(2,3) by (rule node_val_two) (use assms(1) in \<open>simp split: if_splits\<close>)

lemma node_val_unary:
  assumes "op n = BitNot \<or> op n = Neg \<or> op n = LogNot" "node_val h (a n) x"
  shows "node_val h (Some n) (unop (op n) x)"
  using assms(2) by (rule node_val_one) (use assms(1) in auto)

lemma node_val_div_zero:
  assumes "op n = Div \<or> op n = Mod" "node_val h (b n) 0"
  shows "node_val h (Some n) 0"
  using assms(2) by (rule node_val_one) (use assms(1) in auto)

lemma node_val_short_and:
  assumes "op n = LogAnd" "node_val h (a n) x" "truthy x = 0"
  shows "node_val h (Some n) 0"
  using assms(2) by (rule node_val_one) (use assms(1,3) in auto)

lemma node_val_short_or:
  assumes "op n = LogOr" "node_val h (a n) x" "truthy x \<noteq> 0"
  shows "node_val h (Some n) 1"
  using assms(2) by (rule node_val_one) (use assms(1,3) in auto)

lemma node_val_binary:
  assumes "op n \<notin> {Constant, WireRef, Select, BitNot, Neg, LogNot}"
    and "node_val h (a n) x" "node_val h (b n) y"
    and "op n = Div \<or> op n = Mod \<Longrightarrow> y \<noteq> 0"
    and "op n = LogAnd \<Longrightarrow> truthy x \<noteq> 0"
    and "op n = LogOr \<Longrightarrow> truthy x = 0"
    and "binop (op n) x y = Inr q"
  shows "node_val h (Some n) q"
  using assms(2,3) by (rule node_val_two) (use assms(1,4-) in auto)

lemma wire_val_comb:
  assumes "w < length h" "comb_expr (h ! w) = Some e" "node_val h (Some e) v"
  shows "wire_val h w v"
proof -
  from assms(3) obtain k where "naive_node k h (Some e) = Inr v"
    unfolding node_val_def by blast
  then show ?thesis using assms(1,2) by (intro wire_valI [of "Suc k"]) simp
qed

lemma wire_val_committed:
  assumes "w < length h" "comb_expr (h ! w) = None"
  shows "wire_val h w (committed_value (h ! w))"
  using assms by (intro wire_valI [of 1]) simp


lemma cache_ok_evaluated [simp]: "cache_ok h (ctx\<lparr>evaluated := es\<rparr>) = cache_ok h ctx"
  by (simp add: cache_ok_def)

lemma cache_ok_empty [simp]: "cache_ok h empty_ctx"
  by (simp add: cache_ok_def empty_ctx_def)

lemma cache_ok_emplace: "cache_ok h ctx \<Longrightarrow> wire_val h w v \<Longrightarrow> cache_ok h (emplace w v ctx)"
  by (auto simp: cache_ok_def emplace_def split: option.splits)

text \<open>Memoised evaluation returns the value of the expression, and keeps the cache right.\<close>

lemma memo_sound:
  "(\<forall>w ctx v ctx'. cache_ok h ctx \<longrightarrow> wire_value rtl k h (Some w) ctx = Inr (v, ctx') \<longrightarrow>
       wire_val h w v \<and> cache_ok h ctx') \<and>
   (\<forall>n ctx v ctx'. cache_ok h ctx \<longrightarrow> eval_node rtl k h n ctx = Inr (v, ctx') \<longrightarrow>
       node_val h n v \<and> cache_ok h ctx')"
proof (induction k)
  case 0
  show ?case by simp
next
  case (Suc k)
  have W: "wire_val h w v \<and> cache_ok h ctx'"
    if "cache_ok h ctx" "wire_value rtl k h (Some w) ctx = Inr (v, ctx')" for w ctx v ctx'
    using Suc that by blast
  have E: "node_val h n v \<and> cache_ok h ctx'"
    if "cache_ok h ctx" "eval_node rtl k h n ctx = Inr (v, ctx')" for n ctx v ctx'
    using Suc that by blast
  have P: "node_val h na x \<and> node_val h nb y \<and> cache_ok h c2"
    if "cache_ok h ctx"
      "in_order r (\<lambda>c. eval_node rtl k h na c) (\<lambda>c. eval_node rtl k h nb c) ctx = Inr ((x, y), c2)"
    for r na nb ctx x y c2
    using that by (auto simp: in_order_eq_Inr split: if_splits dest: E)
  have 1: "wire_val h w v \<and> cache_ok h ctx'"
    if ok: "cache_ok h ctx" and ev: "wire_value rtl (Suc k) h (Some w) ctx = Inr (v, ctx')"
    for w ctx v ctx'
  proof -
    from ev have len: "w < length h" by (simp split: if_splits)
    show ?thesis
    proof (cases "comb_expr (h ! w)")
      case None
      then show ?thesis using ev ok len by (auto intro: wire_val_committed)
    next
      case (Some e)
      note e = this
      show ?thesis
      proof (cases "comb_cache ctx w")
        case (Some v')
        then show ?thesis using ev ok len e by (auto simp: cache_ok_def)
      next
        case None
        with ev len e obtain c1 where
          c1: "eval_node rtl k h (Some e) (ctx\<lparr>evaluated := evaluated ctx @ [w]\<rparr>) = Inr (v, c1)"
          and c': "ctx' = emplace w v c1"
          by (auto simp: bindE_eq_Inr)
        from E [OF _ c1] ok have "node_val h (Some e) v" "cache_ok h c1" by simp_all
        then show ?thesis using c' len e by (auto intro: wire_val_comb cache_ok_emplace)
      qed
    qed
  qed
  have 2: "node_val h n v \<and> cache_ok h ctx'"
    if ok: "cache_ok h ctx" and ev: "eval_node rtl (Suc k) h n ctx = Inr (v, ctx')"
    for n ctx v ctx'
  proof (cases n)
    case None
    then show ?thesis using ev by simp
  next
    case (Some x)
    note ev' = ev [unfolded Some eval_node_Suc]
    consider (const) "op x = Constant" | (wref) "op x = WireRef" | (sel) "op x = Select"
      | (un) "op x = BitNot \<or> op x = Neg \<or> op x = LogNot"
      | (dv) "op x = Div \<or> op x = Mod" | (land) "op x = LogAnd" | (lor) "op x = LogOr"
      | (bin) "op x \<notin> {Constant, WireRef, Select, BitNot, Neg, LogNot, Div, Mod, LogAnd, LogOr}"
      by auto
    then show ?thesis
    proof cases
      case const
      then show ?thesis using ev' ok Some by (auto intro: node_val_Constant)
    next
      case wref
      with ev' have wv: "wire_value rtl k h (wire x) ctx = Inr (v, ctx')" by simp
      then obtain w where w: "wire x = Some w"
        by (cases "wire x"; cases k) auto
      from W [OF ok wv [unfolded w]] show ?thesis
        using wref w Some by (auto intro: node_val_WireRef)
    next
      case sel
      with ev' obtain y c1 where
        1: "eval_node rtl k h (a x) ctx = Inr (y, c1)" and
        2: "eval_node rtl k h (if truthy y \<noteq> 0 then b x else c x) c1 = Inr (v, ctx')"
        by (auto simp: bindE_eq_Inr split: if_splits)
      from E [OF ok 1] have "node_val h (a x) y" "cache_ok h c1" by simp_all
      moreover from E [OF \<open>cache_ok h c1\<close> 2]
      have "node_val h (if truthy y \<noteq> 0 then b x else c x) v" "cache_ok h ctx'" by simp_all
      ultimately show ?thesis using sel Some by (auto intro: node_val_Select)
    next
      case un
      with ev' obtain y where
        1: "eval_node rtl k h (a x) ctx = Inr (y, ctx')" and v: "v = unop (op x) y"
        by (auto simp: bindE_eq_Inr)
      from E [OF ok 1] show ?thesis using un v Some by (auto intro: node_val_unary)
    next
      case dv
      with ev' obtain d c1 where
        1: "eval_node rtl k h (b x) ctx = Inr (d, c1)" and
        2: "if d = 0 then v = 0 \<and> ctx' = c1
            else (\<exists>y. eval_node rtl k h (a x) c1 = Inr (y, ctx') \<and> binop (op x) y d = Inr v)"
        by (auto simp: bindE_eq_Inr split: if_splits)
      from E [OF ok 1] have b: "node_val h (b x) d" "cache_ok h c1" by simp_all
      show ?thesis
      proof (cases "d = 0")
        case True
        then show ?thesis using 2 b dv Some by (auto intro: node_val_div_zero)
      next
        case False
        with 2 obtain y where 3: "eval_node rtl k h (a x) c1 = Inr (y, ctx')"
          and 4: "binop (op x) y d = Inr v" by auto
        from E [OF b(2) 3] have "node_val h (a x) y" "cache_ok h ctx'" by simp_all
        then show ?thesis using b(1) 4 False dv Some
          by (auto intro!: node_val_binary [where x = y and y = d])
      qed
    next
      case land
      with ev' obtain y c1 where
        1: "eval_node rtl k h (a x) ctx = Inr (y, c1)" and
        2: "if truthy y = 0 then v = 0 \<and> ctx' = c1
            else (\<exists>z. eval_node rtl k h (b x) c1 = Inr (z, ctx') \<and> binop (op x) y z = Inr v)"
        by (auto simp: bindE_eq_Inr split: if_splits)
      from E [OF ok 1] have a: "node_val h (a x) y" "cache_ok h c1" by simp_all
      show ?thesis
      proof (cases "truthy y = 0")
        case True
        then show ?thesis using 2 a land Some by (auto intro: node_val_short_and)
      next
        case False
        with 2 obtain z where 3: "eval_node rtl k h (b x) c1 = Inr (z, ctx')"
          and 4: "binop (op x) y z = Inr v" by auto
        from E [OF a(2) 3] have "node_val h (b x) z" "cache_ok h ctx'" by simp_all
        then show ?thesis using a(1) 4 False land Some
          by (auto intro!: node_val_binary [where x = y and y = z])
      qed
    next
      case lor
      with ev' obtain y c1 where
        1: "eval_node rtl k h (a x) ctx = Inr (y, c1)" and
        2: "if truthy y \<noteq> 0 then v = 1 \<and> ctx' = c1
            else (\<exists>z. eval_node rtl k h (b x) c1 = Inr (z, ctx') \<and> binop (op x) y z = Inr v)"
        by (auto simp: bindE_eq_Inr split: if_splits)
      from E [OF ok 1] have a: "node_val h (a x) y" "cache_ok h c1" by simp_all
      show ?thesis
      proof (cases "truthy y = 0")
        case False
        then show ?thesis using 2 a lor Some by (auto intro: node_val_short_or)
      next
        case True
        with 2 obtain z where 3: "eval_node rtl k h (b x) c1 = Inr (z, ctx')"
          and 4: "binop (op x) y z = Inr v" by auto
        from E [OF a(2) 3] have "node_val h (b x) z" "cache_ok h ctx'" by simp_all
        then show ?thesis using a(1) 4 True lor Some
          by (auto intro!: node_val_binary [where x = y and y = z])
      qed
    next
      case bin
      with ev' obtain y z where
        1: "in_order (op x \<noteq> Shl \<and> op x \<noteq> Shr \<and> rtl (op x))
              (\<lambda>c. eval_node rtl k h (a x) c) (\<lambda>c. eval_node rtl k h (b x) c) ctx = Inr ((y, z), ctx')"
        and 2: "binop (op x) y z = Inr v"
        by (auto simp: bindE_eq_Inr)
      from P [OF ok 1] show ?thesis using 2 bin Some
        by (auto intro!: node_val_binary [where x = y and y = z])
    qed
  qed
  show ?case using 1 2 by blast
qed


lemma eval_node_sound:
  "cache_ok h ctx \<Longrightarrow> eval_node rtl k h n ctx = Inr (v, ctx') \<Longrightarrow> node_val h n v \<and> cache_ok h ctx'"
  using memo_sound [of h rtl k] by blast

lemma wire_value_sound:
  "cache_ok h ctx \<Longrightarrow> wire_value rtl k h (Some w) ctx = Inr (v, ctx') \<Longrightarrow>
   wire_val h w v \<and> cache_ok h ctx'"
  using memo_sound [of h rtl k] by blast

text \<open>Memoised evaluation returns whenever the expression has a value, on the same fuel.\<close>

lemma memo_complete:
  "(\<forall>w ctx v. cache_ok h ctx \<longrightarrow> naive_wire k h (Some w) = Inr v \<longrightarrow>
       (\<exists>ctx'. wire_value rtl k h (Some w) ctx = Inr (v, ctx'))) \<and>
   (\<forall>n ctx v. cache_ok h ctx \<longrightarrow> naive_node k h n = Inr v \<longrightarrow>
       (\<exists>ctx'. eval_node rtl k h n ctx = Inr (v, ctx')))"
proof (induction k)
  case 0
  show ?case by simp
next
  case (Suc k)
  have W: "\<exists>ctx'. wire_value rtl k h (Some w) ctx = Inr (v, ctx') \<and> cache_ok h ctx'"
    if "cache_ok h ctx" "naive_wire k h (Some w) = Inr v" for w ctx v
  proof -
    from Suc that obtain ctx' where 1: "wire_value rtl k h (Some w) ctx = Inr (v, ctx')"
      by blast
    from wire_value_sound [OF that(1) 1] 1 show ?thesis by blast
  qed
  have E: "\<exists>ctx'. eval_node rtl k h n ctx = Inr (v, ctx') \<and> cache_ok h ctx'"
    if "cache_ok h ctx" "naive_node k h n = Inr v" for n ctx v
  proof -
    from Suc that obtain ctx' where 1: "eval_node rtl k h n ctx = Inr (v, ctx')"
      by blast
    from eval_node_sound [OF that(1) 1] 1 show ?thesis by blast
  qed
  have P: "\<exists>c2. in_order r (\<lambda>c. eval_node rtl k h na c) (\<lambda>c. eval_node rtl k h nb c) ctx
                  = Inr ((x, y), c2)"
    if ok: "cache_ok h ctx" and na: "naive_node k h na = Inr x" and nb: "naive_node k h nb = Inr y"
    for r na nb ctx x y
  proof (cases r)
    case True
    from E [OF ok nb] obtain c1 where 1: "eval_node rtl k h nb ctx = Inr (y, c1)" "cache_ok h c1"
      by blast
    from E [OF 1(2) na] obtain c2 where "eval_node rtl k h na c1 = Inr (x, c2)" by blast
    with 1 True show ?thesis by (auto simp: in_order_eq_Inr)
  next
    case False
    from E [OF ok na] obtain c1 where 1: "eval_node rtl k h na ctx = Inr (x, c1)" "cache_ok h c1"
      by blast
    from E [OF 1(2) nb] obtain c2 where "eval_node rtl k h nb c1 = Inr (y, c2)" by blast
    with 1 False show ?thesis by (auto simp: in_order_eq_Inr)
  qed
  have 1: "\<exists>ctx'. wire_value rtl (Suc k) h (Some w) ctx = Inr (v, ctx')"
    if ok: "cache_ok h ctx" and nv: "naive_wire (Suc k) h (Some w) = Inr v" for w ctx v
  proof -
    from nv have len: "w < length h" by (simp split: if_splits)
    show ?thesis
    proof (cases "comb_expr (h ! w)")
      case None
      then show ?thesis using nv len by auto
    next
      case (Some e)
      note e = this
      show ?thesis
      proof (cases "comb_cache ctx w")
        case (Some v')
        with ok have "wire_val h w v'" by (simp add: cache_ok_def)
        moreover from nv have "wire_val h w v" by (rule wire_valI)
        ultimately have "v' = v" by (rule wire_val_unique)
        then show ?thesis using Some e len by simp
      next
        case None
        from nv e len have "naive_node k h (Some e) = Inr v" by simp
        from E [OF _ this, of "ctx\<lparr>evaluated := evaluated ctx @ [w]\<rparr>"] ok
        obtain c1 where "eval_node rtl k h (Some e) (ctx\<lparr>evaluated := evaluated ctx @ [w]\<rparr>) = Inr (v, c1)"
          by auto
        then show ?thesis using None e len by simp
      qed
    qed
  qed
  have 2: "\<exists>ctx'. eval_node rtl (Suc k) h n ctx = Inr (v, ctx')"
    if ok: "cache_ok h ctx" and nv: "naive_node (Suc k) h n = Inr v" for n ctx v
  proof (cases n)
    case None
    then show ?thesis using nv by simp
  next
    case (Some x)
    note nv' = nv [unfolded Some naive_node.simps]
    consider (const) "op x = Constant" | (wref) "op x = WireRef" | (sel) "op x = Select"
      | (un) "op x = BitNot \<or> op x = Neg \<or> op x = LogNot"
      | (dv) "op x = Div \<or> op x = Mod" | (land) "op x = LogAnd" | (lor) "op x = LogOr"
      | (bin) "op x \<notin> {Constant, WireRef, Select, BitNot, Neg, LogNot, Div, Mod, LogAnd, LogOr}"
      by auto
    then show ?thesis
    proof cases
      case const
      then show ?thesis unfolding Some eval_node_Suc using nv' by auto
    next
      case wref
      with nv' have wv: "naive_wire k h (wire x) = Inr v" by simp
      then obtain w where w: "wire x = Some w"
        by (cases "wire x"; cases k) auto
      from W [OF ok wv [unfolded w]] show ?thesis
        unfolding Some eval_node_Suc using wref w by auto
    next
      case sel
      with nv' obtain y where
        1: "naive_node k h (a x) = Inr y" and
        2: "naive_node k h (if truthy y \<noteq> 0 then b x else c x) = Inr v"
        by (auto simp: bindE_eq_Inr split: if_splits)
      from E [OF ok 1] obtain c1 where 3: "eval_node rtl k h (a x) ctx = Inr (y, c1)" "cache_ok h c1"
        by blast
      from E [OF 3(2) 2] obtain c2 where
        "eval_node rtl k h (if truthy y \<noteq> 0 then b x else c x) c1 = Inr (v, c2)" by blast
      with 3 sel show ?thesis unfolding Some eval_node_Suc by (auto split: if_splits)
    next
      case un
      with nv' obtain y where
        1: "naive_node k h (a x) = Inr y" and v: "v = unop (op x) y"
        by (auto simp: bindE_eq_Inr)
      from E [OF ok 1] show ?thesis unfolding Some eval_node_Suc using un v by auto
    next
      case dv
      with nv' obtain d where
        1: "naive_node k h (b x) = Inr d" and
        2: "if d = 0 then v = 0
            else (\<exists>y. naive_node k h (a x) = Inr y \<and> binop (op x) y d = Inr v)"
        by (auto simp: bindE_eq_Inr split: if_splits)
      from E [OF ok 1] obtain c1 where 3: "eval_node rtl k h (b x) ctx = Inr (d, c1)" "cache_ok h c1"
        by blast
      show ?thesis
      proof (cases "d = 0")
        case True
        then show ?thesis unfolding Some eval_node_Suc using 2 3 dv by auto
      next
        case False
        with 2 obtain y where 4: "naive_node k h (a x) = Inr y"
          and 5: "binop (op x) y d = Inr v" by auto
        from E [OF 3(2) 4] obtain c2 where "eval_node rtl k h (a x) c1 = Inr (y, c2)" by blast
        then show ?thesis unfolding Some eval_node_Suc using 3 5 False dv by auto
      qed
    next
      case land
      with nv' obtain y where
        1: "naive_node k h (a x) = Inr y" and
        2: "if truthy y = 0 then v = 0
            else (\<exists>z. naive_node k h (b x) = Inr z \<and> binop (op x) y z = Inr v)"
        by (auto simp: bindE_eq_Inr split: if_splits)
      from E [OF ok 1] obtain c1 where 3: "eval_node rtl k h (a x) ctx = Inr (y, c1)" "cache_ok h c1"
        by blast
      show ?thesis
      proof (cases "truthy y = 0")
        case True
        then show ?thesis unfolding Some eval_node_Suc using 2 3 land by auto
      next
        case False
        with 2 obtain z where 4: "naive_node k h (b x) = Inr z"
          and 5: "binop (op x) y z = Inr v" by auto
        from E [OF 3(2) 4] obtain c2 where "eval_node rtl k h (b x) c1 = Inr (z, c2)" by blast
        then show ?thesis unfolding Some eval_node_Suc using 3 5 False land by auto
      qed
    next
      case lor
      with nv' obtain y where
        1: "naive_node k h (a x) = Inr y" and
        2: "if truthy y \<noteq> 0 then v = 1
            else (\<exists>z. naive_node k h (b x) = Inr z \<and> binop (op x) y z = Inr v)"
        by (auto simp: bindE_eq_Inr split: if_splits)
      from E [OF ok 1] obtain c1 where 3: "eval_node rtl k h (a x) ctx = Inr (y, c1)" "cache_ok h c1"
        by blast
      show ?thesis
      proof (cases "truthy y = 0")
        case False
        then show ?thesis unfolding Some eval_node_Suc using 2 3 lor by auto
      next
        case True
        with 2 obtain z where 4: "naive_node k h (b x) = Inr z"
          and 5: "binop (op x) y z = Inr v" by auto
        from E [OF 3(2) 4] obtain c2 where "eval_node rtl k h (b x) c1 = Inr (z, c2)" by blast
        then show ?thesis unfolding Some eval_node_Suc using 3 5 True lor by auto
      qed
    next
      case bin
      with nv' obtain y z where
        1: "naive_node k h (a x) = Inr y" "naive_node k h (b x) = Inr z"
        and 2: "binop (op x) y z = Inr v"
        by (auto simp: bindE_eq_Inr)
      from P [OF ok 1] obtain c2 where
        "in_order (op x \<noteq> Shl \<and> op x \<noteq> Shr \<and> rtl (op x))
           (\<lambda>c. eval_node rtl k h (a x) c) (\<lambda>c. eval_node rtl k h (b x) c) ctx = Inr ((y, z), c2)"
        by blast
      then show ?thesis unfolding Some eval_node_Suc using 2 bin by auto
    qed
  qed
  show ?case using 1 2 by blast
qed

section \<open>The log of evaluated wires\<close>





lemma refs_children:
  assumes "\<not> (op x = WireRef \<and> wire x \<noteq> None)"
  shows "refs_of (a x) \<subseteq> refs_of (Some x)" "refs_of (b x) \<subseteq> refs_of (Some x)"
    "refs_of (c x) \<subseteq> refs_of (Some x)"
  using assms by (cases x; auto simp: refs_of_def split: option.splits)+

lemma refs_WireRef: "op x = WireRef \<Longrightarrow> wire x = Some w \<Longrightarrow> refs_of (Some x) = {w}"
  by (cases x) (simp add: refs_of_def)




section \<open>The invariant of a cycle's context\<close>








section \<open>The closure computation\<close>

lemma res_le_case_option2:
  "(p = None \<Longrightarrow> res_le x x') \<Longrightarrow> (\<And>y. p = Some y \<Longrightarrow> res_le (f y) (f' y)) \<Longrightarrow>
   res_le (case_option x f p) (case_option x' f' p)"
  by (cases p) simp_all

lemma gather_mono_Suc:
  "res_le (gather_from_expr k h n S) (gather_from_expr (Suc k) h n S)"
proof (induction k arbitrary: n S)
  case 0
  show ?case by (simp add: res_le_Inl)
next
  case (Suc k)
  show ?case
  proof (cases n)
    case None
    then show ?thesis by (simp add: res_le_refl)
  next
    case (Some x)
    show ?thesis unfolding Some gather_from_expr.simps
      by (intro res_le_intros Suc res_le_refl)
  qed
qed

lemma gather_mono: "k \<le> k' \<Longrightarrow> res_le (gather_from_expr k h n S) (gather_from_expr k' h n S)"
  by (induction k' rule: dec_induct) (auto intro: res_le_refl res_le_trans gather_mono_Suc)

lemma gather_wire_mono: "g \<le> g' \<Longrightarrow> res_le (gather_wire g h w S) (gather_wire g' h w S)"
  unfolding gather_wire_def by (intro res_le_intros gather_mono res_le_refl)

lemma gather_snapshot_mono:
  "g \<le> g' \<Longrightarrow> res_le (gather_snapshot g h ws S) (gather_snapshot g' h ws S)"
  by (induction ws arbitrary: S) (auto intro!: res_le_intros gather_wire_mono res_le_refl)

lemma closure_loop_mono_Suc:
  "g \<le> g' \<Longrightarrow> res_le (closure_loop enum g k h prev S) (closure_loop enum g' (Suc k) h prev S)"
proof (induction k arbitrary: prev S)
  case 0
  then show ?case by (auto simp: res_le_Inl res_le_refl)
next
  case (Suc k)
  show ?case unfolding closure_loop.simps(2) [of enum g k] closure_loop.simps(2) [of enum g' "Suc k"]
    by (intro res_le_intros gather_snapshot_mono Suc res_le_refl)
qed

lemma closure_loop_mono_g:
  "g \<le> g' \<Longrightarrow> res_le (closure_loop enum g k h prev S) (closure_loop enum g' k h prev S)"
  by (induction k arbitrary: prev S)
     (auto intro!: res_le_intros gather_snapshot_mono res_le_refl)

lemma closure_loop_mono_k:
  "k \<le> k' \<Longrightarrow> res_le (closure_loop enum g k h prev S) (closure_loop enum g k' h prev S)"
proof (induction k' rule: dec_induct)
  case base
  show ?case by (rule res_le_refl)
next
  case (step n)
  show ?case by (rule res_le_trans [OF step.IH closure_loop_mono_Suc [OF order_refl]])
qed

lemma closure_loop_mono:
  "g \<le> g' \<Longrightarrow> k \<le> k' \<Longrightarrow>
   res_le (closure_loop enum g k h prev S) (closure_loop enum g' k' h prev S)"
  by (blast intro: res_le_trans closure_loop_mono_g closure_loop_mono_k)

lemma closure_from_targets_mono:
  "k \<le> k' \<Longrightarrow> res_le (closure_from_targets enum k h ts) (closure_from_targets enum k' h ts)"
  unfolding closure_from_targets_def by (rule closure_loop_mono)


lemma reach_closed: "closed h (reach h R)"
  unfolding closed_def by (blast intro: reach.step)

lemma reach_least:
  assumes "R \<subseteq> S" "closed h S"
  shows "reach h R \<subseteq> S"
proof
  fix w assume "w \<in> reach h R"
  then show "w \<in> S"
    by induction (use assms in \<open>auto simp: closed_def\<close>)
qed

lemma reach_subset: "R \<subseteq> reach h R' \<Longrightarrow> reach h R \<subseteq> reach h R'"
  by (rule reach_least [OF _ reach_closed])

lemma reach_mono: "R \<subseteq> R' \<Longrightarrow> reach h R \<subseteq> reach h R'"
  by (rule reach_subset) (blast intro: reach.base)

lemma reach_idem: "reach h (reach h R) = reach h R"
  by (blast intro: reach.base dest: reach_subset [OF subset_refl, THEN subsetD])

lemma reach_closed_eq: "closed h S \<Longrightarrow> reach h S = S"
  using reach_least [of S S h] by (blast intro: reach.base)

lemma reach_wire_refs: "reach h (wire_refs h w) \<subseteq> reach h {w}"
  by (rule reach_subset) (blast intro: reach.base reach.step)

lemma refs_of_node:
  "\<not> (op x = WireRef \<and> wire x \<noteq> None) \<Longrightarrow>
   refs_of (Some x) = refs_of (a x) \<union> refs_of (b x) \<union> refs_of (c x)"
  by (cases x) (auto simp: refs_of_def split: option.splits)

lemma gathered_refl: "gathered h {} S S"
  by (simp add: gathered_def)

lemma gathered_seq:
  assumes "gathered h R1 S S1" "gathered h R2 S1 S2"
  shows "gathered h (R1 \<union> R2) S S2"
proof -
  have "reach h R1 \<subseteq> reach h (R1 \<union> R2)" "reach h R2 \<subseteq> reach h (R1 \<union> R2)"
    by (simp_all add: reach_mono)
  then show ?thesis
    using assms unfolding gathered_def by blast
qed

lemma gathered_wire:
  assumes "gathered h (wire_refs h w) (insert w S) S'" "w < length h"
  shows "gathered h {w} S S'"
proof -
  have "w \<in> reach h {w}" by (simp add: reach.base)
  then show ?thesis
    using assms reach_wire_refs [of h w] unfolding gathered_def
    by (auto simp: subset_iff)
qed

lemma gathered_known: "w \<in> S \<Longrightarrow> gathered h {w} S S"
  by (simp add: gathered_def)

lemma gather_spec:
  "gather_from_expr k h n S = Inr S' \<Longrightarrow> gathered h (refs_of n) S S'"
proof (induction k arbitrary: n S S')
  case 0
  then show ?case by simp
next
  case (Suc k)
  have G: "gathered h (refs_of m) T T'"
    if "(if m \<noteq> None then gather_from_expr k h m T else Inr T) = Inr T'" for m T T'
    using that Suc.IH [of m T T'] by (cases m) (auto simp: refs_of_def gathered_refl)
  show ?case
  proof (cases n)
    case None
    then show ?thesis using Suc.prems by (simp add: refs_of_def gathered_refl)
  next
    case (Some x)
    show ?thesis
    proof (cases "op x = WireRef \<and> wire x \<noteq> None")
      case True
      then obtain w where w: "wire x = Some w" by auto
      with True have r: "refs_of (Some x) = {w}" by (simp add: refs_WireRef)
      show ?thesis
      proof (cases "w \<in> S")
        case True
        then show ?thesis using Suc.prems Some w r \<open>op x = WireRef \<and> wire x \<noteq> None\<close>
          by (simp add: gathered_known)
      next
        case False
        with Suc.prems Some w True obtain S1 where
          len: "w < length h" and
          1: "gather_from_expr k h (comb_expr (h ! w)) (insert w S) = Inr S1" and
          2: "gather_from_expr k h (next_expr (h ! w)) S1 = Inr S'"
          by (auto simp: bindE_eq_Inr split: if_splits)
        from gathered_seq [OF Suc.IH [OF 1] Suc.IH [OF 2]] len
        have "gathered h (wire_refs h w) (insert w S) S'" by (simp add: wire_refs_def)
        then show ?thesis unfolding Some r using len by (rule gathered_wire)
      qed
    next
      case False
      with Suc.prems Some obtain S1 S2 where
        1: "(if a x \<noteq> None then gather_from_expr k h (a x) S else Inr S) = Inr S1" and
        2: "(if b x \<noteq> None then gather_from_expr k h (b x) S1 else Inr S1) = Inr S2" and
        3: "(if c x \<noteq> None then gather_from_expr k h (c x) S2 else Inr S2) = Inr S'"
        by (auto simp: bindE_eq_Inr)
      from gathered_seq [OF gathered_seq [OF G [OF 1] G [OF 2]] G [OF 3]]
      show ?thesis unfolding Some refs_of_node [OF False] .
    qed
  qed
qed


lemma unseen_mono: "S \<subseteq> S' \<Longrightarrow> unseen h S' \<le> unseen h S"
  unfolding unseen_def by (intro card_mono) auto

lemma unseen_le: "unseen h S \<le> length h"
  unfolding unseen_def using card_mono [of "{..<length h}" "{..<length h} - S"] by simp

lemma unseen_insert:
  assumes "w < length h" "w \<notin> S"
  shows "Suc (unseen h (insert w S)) = unseen h S"
proof -
  have "{..<length h} - S = insert w ({..<length h} - insert w S)"
    using assms by auto
  moreover have "w \<notin> {..<length h} - insert w S" by simp
  ultimately show ?thesis
    unfolding unseen_def by (metis card_insert_disjoint finite_Diff finite_lessThan)
qed

lemma expr_bound_ge:
  assumes "w < length h"
  shows "count_of (comb_expr (h ! w)) + count_of (next_expr (h ! w)) < expr_bound h"
proof -
  let ?f = "\<lambda>w. count_of (comb_expr w) + count_of (next_expr w)"
  have "?f (h ! w) \<in> set (map ?f h)" using assms by simp
  then have "?f (h ! w) \<le> sum_list (map ?f h)" by (intro member_le_sum_list) simp_all
  then show ?thesis by (simp add: expr_bound_def)
qed

lemma count_children:
  "count_of (a x) < node_count x" "count_of (b x) < node_count x" "count_of (c x) < node_count x"
  by (cases x; simp add: count_of_def split: option.splits)+

lemma gather_total:
  assumes "\<forall>w\<in>reach h (refs_of n). w < length h"
    and "Suc (count_of n) + unseen h S * expr_bound h \<le> k"
  shows "\<exists>S'. gather_from_expr k h n S = Inr S'"
  using assms
proof (induction k arbitrary: n S)
  case 0
  then show ?case by simp
next
  case (Suc k)
  show ?case
  proof (cases n)
    case None
    then show ?thesis by simp
  next
    case (Some x)
    from Suc.prems(2) have fuel: "node_count x + unseen h S * expr_bound h \<le> k"
      by (simp add: Some count_of_def)
    show ?thesis
    proof (cases "op x = WireRef \<and> wire x \<noteq> None")
      case True
      then obtain w where w: "wire x = Some w" by auto
      with True have r: "refs_of (Some x) = {w}" by (simp add: refs_WireRef)
      show ?thesis
      proof (cases "w \<in> S")
        case True
        then show ?thesis using Some w \<open>op x = WireRef \<and> wire x \<noteq> None\<close> by simp
      next
        case False
        have len: "w < length h"
          using Suc.prems(1) r Some by (auto intro: reach.base)
        have valid: "\<forall>v\<in>reach h (wire_refs h w). v < length h"
          using Suc.prems(1) reach_wire_refs [of h w] unfolding Some r by blast
        have u: "Suc (unseen h (insert w S)) = unseen h S"
          by (rule unseen_insert [OF len False])
        have m: "count_of (comb_expr (h ! w)) + count_of (next_expr (h ! w)) < expr_bound h"
          by (rule expr_bound_ge [OF len])
        have "unseen h S * expr_bound h = unseen h (insert w S) * expr_bound h + expr_bound h"
          by (simp add: u [symmetric])
        with fuel m have f1:
          "Suc (count_of (comb_expr (h ! w))) + unseen h (insert w S) * expr_bound h \<le> k"
          and f2': "Suc (count_of (next_expr (h ! w))) + unseen h (insert w S) * expr_bound h \<le> k"
          by simp_all
        have "\<forall>v\<in>reach h (refs_of (comb_expr (h ! w))). v < length h"
          using valid reach_mono [of "refs_of (comb_expr (h ! w))" "wire_refs h w" h] len
          by (auto simp: wire_refs_def)
        from Suc.IH [OF this f1] obtain S1 where
          1: "gather_from_expr k h (comb_expr (h ! w)) (insert w S) = Inr S1" by blast
        from gather_spec [OF 1] have "insert w S \<subseteq> S1" by (simp add: gathered_def)
        then have "unseen h S1 \<le> unseen h (insert w S)" by (rule unseen_mono)
        then have "unseen h S1 * expr_bound h \<le> unseen h (insert w S) * expr_bound h"
          by (rule mult_le_mono1)
        with f2' have f2: "Suc (count_of (next_expr (h ! w))) + unseen h S1 * expr_bound h \<le> k"
          by linarith
        have "\<forall>v\<in>reach h (refs_of (next_expr (h ! w))). v < length h"
          using valid reach_mono [of "refs_of (next_expr (h ! w))" "wire_refs h w" h] len
          by (auto simp: wire_refs_def)
        from Suc.IH [OF this f2] obtain S2 where
          "gather_from_expr k h (next_expr (h ! w)) S1 = Inr S2" by blast
        with 1 show ?thesis using Some w True False len by simp
      qed
    next
      case False
      have C: "\<exists>T'. (if m \<noteq> None then gather_from_expr k h m T else Inr T) = Inr T'"
        if "refs_of m \<subseteq> refs_of (Some x)" "count_of m < node_count x" "S \<subseteq> T" for m T
      proof (cases m)
        case None
        then show ?thesis by simp
      next
        case (Some y)
        have "\<forall>w\<in>reach h (refs_of m). w < length h"
          using Suc.prems(1) reach_mono [OF that(1), of h] \<open>n = Some x\<close> by blast
        moreover have "unseen h T * expr_bound h \<le> unseen h S * expr_bound h"
          by (intro mult_le_mono1 unseen_mono that)
        with fuel that(2) have "Suc (count_of m) + unseen h T * expr_bound h \<le> k"
          by linarith
        ultimately show ?thesis using Suc.IH [of m T] Some by simp
      qed
      have G: "gathered h (refs_of m) T T'"
        if "(if m \<noteq> None then gather_from_expr k h m T else Inr T) = Inr T'" for m T T'
        using that gather_spec [of k h m T T'] by (cases m) (auto simp: refs_of_def gathered_refl)
      from C [OF refs_children(1) [OF False] count_children(1) subset_refl] obtain S1 where
        1: "(if a x \<noteq> None then gather_from_expr k h (a x) S else Inr S) = Inr S1" by blast
      from G [OF 1] have s1: "S \<subseteq> S1" by (simp add: gathered_def)
      from C [OF refs_children(2) [OF False] count_children(2) s1] obtain S2 where
        2: "(if b x \<noteq> None then gather_from_expr k h (b x) S1 else Inr S1) = Inr S2" by blast
      from G [OF 2] s1 have s2: "S \<subseteq> S2" by (auto simp: gathered_def)
      from C [OF refs_children(3) [OF False] count_children(3) s2] obtain S3 where
        3: "(if c x \<noteq> None then gather_from_expr k h (c x) S2 else Inr S2) = Inr S3" by blast
      show ?thesis using 1 2 3 False Some by (auto simp: bindE_eq_Inr)
    qed
  qed
qed


lemma closure_fuel_ge:
  assumes "w < length h"
  shows "Suc (count_of (comb_expr (h ! w))) + unseen h S * expr_bound h \<le> closure_fuel h"
    and "Suc (count_of (next_expr (h ! w))) + unseen h S * expr_bound h \<le> closure_fuel h"
proof -
  have "unseen h S * expr_bound h \<le> length h * expr_bound h"
    by (intro mult_le_mono1 unseen_le)
  moreover have "closure_fuel h = expr_bound h + length h * expr_bound h"
    by (simp add: closure_fuel_def)
  moreover note expr_bound_ge [OF assms]
  ultimately
  show "Suc (count_of (comb_expr (h ! w))) + unseen h S * expr_bound h \<le> closure_fuel h"
    and "Suc (count_of (next_expr (h ! w))) + unseen h S * expr_bound h \<le> closure_fuel h"
    by linarith+
qed

lemma gather_wire_spec:
  assumes "gather_wire g h w S = Inr S'"
  shows "w < length h \<and> gathered h (wire_refs h w) S S'"
proof -
  from assms obtain S1 where len: "w < length h"
    and 1: "gather_from_expr g h (comb_expr (h ! w)) S = Inr S1"
    and 2: "gather_from_expr g h (next_expr (h ! w)) S1 = Inr S'"
    by (auto simp: gather_wire_def bindE_eq_Inr split: if_splits)
  from gathered_seq [OF gather_spec [OF 1] gather_spec [OF 2]] len
  show ?thesis by (simp add: wire_refs_def)
qed

lemma gather_wire_total:
  assumes "\<forall>v\<in>reach h {w}. v < length h" "closure_fuel h \<le> g"
  shows "\<exists>S'. gather_wire g h w S = Inr S'"
proof -
  have len: "w < length h" using assms(1) by (auto intro: reach.base)
  have valid: "\<forall>v\<in>reach h (wire_refs h w). v < length h"
    using assms(1) reach_wire_refs [of h w] by blast
  have "\<forall>v\<in>reach h (refs_of (comb_expr (h ! w))). v < length h"
    using valid reach_mono [of "refs_of (comb_expr (h ! w))" "wire_refs h w" h] len
    by (auto simp: wire_refs_def)
  from gather_total [OF this, of S g] closure_fuel_ge(1) [OF len, of S] assms(2)
  obtain S1 where 1: "gather_from_expr g h (comb_expr (h ! w)) S = Inr S1"
    by (meson le_trans)
  have "\<forall>v\<in>reach h (refs_of (next_expr (h ! w))). v < length h"
    using valid reach_mono [of "refs_of (next_expr (h ! w))" "wire_refs h w" h] len
    by (auto simp: wire_refs_def)
  from gather_total [OF this, of S1 g] closure_fuel_ge(2) [OF len, of S1] assms(2)
  obtain S2 where "gather_from_expr g h (next_expr (h ! w)) S1 = Inr S2"
    by (meson le_trans)
  with 1 len show ?thesis by (simp add: gather_wire_def)
qed

lemma gather_snapshot_spec:
  "gather_snapshot g h ws S = Inr S' \<Longrightarrow>
   (\<forall>w\<in>set ws. w < length h) \<and> gathered h (\<Union>w\<in>set ws. wire_refs h w) S S'"
proof (induction ws arbitrary: S)
  case Nil
  then show ?case by (simp add: gathered_refl)
next
  case (Cons w ws)
  from Cons.prems obtain S1 where 1: "gather_wire g h w S = Inr S1"
    and 2: "gather_snapshot g h ws S1 = Inr S'"
    by (auto simp: bindE_eq_Inr)
  from gathered_seq [of h "wire_refs h w" S S1 "\<Union>w\<in>set ws. wire_refs h w" S']
    gather_wire_spec [OF 1] Cons.IH [OF 2]
  show ?case by simp
qed

lemma gather_snapshot_total:
  assumes "\<forall>v\<in>reach h (set ws). v < length h" "closure_fuel h \<le> g"
  shows "\<exists>S'. gather_snapshot g h ws S = Inr S'"
  using assms(1)
proof (induction ws arbitrary: S)
  case Nil
  show ?case by simp
next
  case (Cons w ws)
  have "\<forall>v\<in>reach h {w}. v < length h"
    using Cons.prems reach_mono [of "{w}" "set (w # ws)" h] by auto
  from gather_wire_total [OF this assms(2)] obtain S1 where 1: "gather_wire g h w S = Inr S1"
    by blast
  have "\<forall>v\<in>reach h (set ws). v < length h"
    using Cons.prems reach_mono [of "set ws" "set (w # ws)" h] by auto
  from Cons.IH [OF this] obtain S2 where "gather_snapshot g h ws S1 = Inr S2" by blast
  with 1 show ?case by simp
qed

lemma closure_loop_spec:
  assumes en: "enumerates enum"
  shows "closure_loop enum g k h prev S = Inr S' \<Longrightarrow> finite S \<Longrightarrow>
         (prev = card S \<longrightarrow> closed h S \<and> (\<forall>w\<in>S. w < length h)) \<Longrightarrow>
         S \<subseteq> S' \<and> S' \<subseteq> reach h S \<and> closed h S' \<and> (\<forall>w\<in>S'. w < length h) \<and> finite S'"
proof (induction k arbitrary: prev S)
  case 0
  then show ?case by (auto split: if_splits intro: reach.base)
next
  case (Suc k)
  show ?case
  proof (cases "prev = card S")
    case True
    then show ?thesis using Suc.prems by (auto intro: reach.base)
  next
    case False
    with Suc.prems(1) obtain S1 where 1: "gather_snapshot g h (enum S) S = Inr S1"
      and 2: "closure_loop enum g k h (card S) S1 = Inr S'"
      by (auto simp: bindE_eq_Inr)
    have es: "set (enum S) = S" using en Suc.prems(2) by (simp add: enumerates_def)
    from gather_snapshot_spec [OF 1] es
    have v: "\<forall>w\<in>S. w < length h" and g: "gathered h (\<Union>w\<in>S. wire_refs h w) S S1"
      by simp_all
    have r: "reach h (\<Union>w\<in>S. wire_refs h w) \<subseteq> reach h S"
      by (rule reach_subset) (blast intro: reach.base reach.step)
    from g r have s1: "S \<subseteq> S1" "S1 \<subseteq> reach h S" "finite S1" "(\<Union>w\<in>S. wire_refs h w) \<subseteq> S1"
      using Suc.prems(2) unfolding gathered_def by (blast intro: reach.base)+
    have pre: "card S = card S1 \<longrightarrow> closed h S1 \<and> (\<forall>w\<in>S1. w < length h)"
    proof
      assume "card S = card S1"
      with s1(1,3) have "S = S1" by (simp add: card_subset_eq)
      with s1(4) v show "closed h S1 \<and> (\<forall>w\<in>S1. w < length h)"
        unfolding closed_def by blast
    qed
    from Suc.IH [OF 2 s1(3) pre]
    have "S1 \<subseteq> S'" "S' \<subseteq> reach h S1" "closed h S'" "\<forall>w\<in>S'. w < length h" "finite S'"
      by simp_all
    moreover have "reach h S1 \<subseteq> reach h S" by (rule reach_subset [OF s1(2)])
    ultimately show ?thesis using s1(1) by blast
  qed
qed

lemma closure_loop_total:
  assumes en: "enumerates enum" and g: "closure_fuel h \<le> g"
  shows "finite S \<Longrightarrow> \<forall>w\<in>reach h S. w < length h \<Longrightarrow> Suc (length h) \<le> k + card S \<Longrightarrow>
         \<exists>S'. closure_loop enum g k h prev S = Inr S'"
proof (induction k arbitrary: prev S)
  case 0
  have "S \<subseteq> {..<length h}" using 0(2) by (auto intro: reach.base)
  then have "card S \<le> length h" using card_mono [of "{..<length h}" S] by simp
  with 0(3) show ?case by simp
next
  case (Suc k)
  show ?case
  proof (cases "prev = card S")
    case True
    then show ?thesis by simp
  next
    case False
    have es: "set (enum S) = S" using en Suc.prems(1) by (simp add: enumerates_def)
    from gather_snapshot_total [OF _ g, of "enum S" S] Suc.prems(2) es
    obtain S1 where 1: "gather_snapshot g h (enum S) S = Inr S1" by auto
    from gather_snapshot_spec [OF 1] es
    have gs: "gathered h (\<Union>w\<in>S. wire_refs h w) S S1" by simp
    have r: "reach h (\<Union>w\<in>S. wire_refs h w) \<subseteq> reach h S"
      by (rule reach_subset) (blast intro: reach.base reach.step)
    from gs r have s1: "S \<subseteq> S1" "S1 \<subseteq> reach h S" "finite S1"
      using Suc.prems(1) unfolding gathered_def by (blast intro: reach.base)+
    have v1: "\<forall>w\<in>reach h S1. w < length h"
      using Suc.prems(2) reach_subset [OF s1(2)] by blast
    have "\<exists>S'. closure_loop enum g k h (card S) S1 = Inr S'"
    proof (cases "card S = card S1")
      case True
      then show ?thesis by (cases k) simp_all
    next
      case False
      moreover have "card S \<le> card S1" using s1(1,3) by (simp add: card_mono)
      ultimately have "Suc (length h) \<le> k + card S1" using Suc.prems(3) by simp
      from Suc.IH [OF s1(3) v1 this] show ?thesis .
    qed
    with 1 False show ?thesis by simp
  qed
qed

lemma insert_targets_eq: "insert_targets ts S = S \<union> target_set ts"
  by (induction ts S rule: insert_targets.induct) (auto simp: target_set_def)

lemma finite_target_set: "finite (target_set ts)"
proof -
  have "target_set ts \<subseteq> (\<Union>t\<in>set ts. set_option t)"
    by (auto simp: target_set_def)
  then show ?thesis by (rule finite_subset) simp
qed

lemma closure_from_targets_spec:
  assumes "enumerates enum" "closure_from_targets enum fuel h ts = Inr S"
  shows "S = reach h (target_set ts)" "\<forall>w\<in>S. w < length h" "finite S"
proof -
  let ?T = "target_set ts"
  from assms(2) have l: "closure_loop enum fuel fuel h 0 ?T = Inr S"
    by (simp add: closure_from_targets_def insert_targets_eq)
  have "0 = card ?T \<longrightarrow> closed h ?T \<and> (\<forall>w\<in>?T. w < length h)"
    using finite_target_set [of ts] by (auto simp: closed_def)
  from closure_loop_spec [OF assms(1) l finite_target_set this]
  have s: "?T \<subseteq> S" "S \<subseteq> reach h ?T" "closed h S" "\<forall>w\<in>S. w < length h" "finite S"
    by simp_all
  from reach_least [OF s(1,3)] s(2) show "S = reach h ?T" by blast
  from s show "\<forall>w\<in>S. w < length h" "finite S" by simp_all
qed

lemma closure_from_targets_total:
  assumes "enumerates enum" "\<forall>w\<in>reach h (target_set ts). w < length h" "closure_fuel h \<le> fuel"
  shows "closure_from_targets enum fuel h ts = Inr (reach h (target_set ts))"
proof -
  have "Suc (length h) \<le> closure_fuel h"
    by (simp add: closure_fuel_def expr_bound_def)
  with assms(3) have "Suc (length h) \<le> fuel + card (target_set ts)" by simp
  from closure_loop_total [OF assms(1,3) finite_target_set assms(2) this, of 0]
  obtain S where "closure_from_targets enum fuel h ts = Inr S"
    by (auto simp: closure_from_targets_def insert_targets_eq)
  with closure_from_targets_spec(1) [OF assms(1) this] show ?thesis by simp
qed

lemma enumerates_sorted: "enumerates enum_sorted"
  by (simp add: enumerates_def enum_sorted_def)

lemma enumerates_rev: "enumerates enum_rev"
  by (simp add: enumerates_def enum_rev_def)

lemma enumerates_empty: "enumerates enum \<Longrightarrow> enum {} = []"
  unfolding enumerates_def by (metis finite.emptyI set_empty)

lemma target_set_enum:
  assumes "enumerates enum" "finite S"
  shows "target_set (map Some (enum S)) = S"
  using assms by (auto simp: target_set_def enumerates_def)

section \<open>The history map\<close>

lemma keys_map_at: "set (map fst (map_at k f m)) = insert k (set (map fst m))"
  by (induction k f m rule: map_at.induct) auto

lemma sorted_map_at:
  "sorted_wrt (<) (map fst m) \<Longrightarrow> sorted_wrt (<) (map fst (map_at k f m))"
proof (induction k f m rule: map_at.induct)
  case (1 k f)
  show ?case by simp
next
  case (2 k f k' vs m)
  from 2(2) have s: "sorted_wrt (<) (map fst m)" and l: "\<forall>x\<in>set (map fst m). k' < x"
    by simp_all
  consider "k = k'" | "k \<noteq> k'" "k < k'" | "k \<noteq> k'" "\<not> k < k'" by blast
  then show ?case
  proof cases
    case 1
    then show ?thesis using 2(2) by simp
  next
    case 2
    then have "\<forall>x\<in>set (map fst m). k < x" using l by (meson less_trans)
    then show ?thesis using 2 s l by simp
  next
    case 3
    then have "k' < k" by simp
    then have "\<forall>x\<in>set (map fst (map_at k f m)). k' < x"
      using l unfolding keys_map_at by blast
    moreover have "sorted_wrt (<) (map fst (map_at k f m))"
      using "2.IH" 3 s by simp
    ultimately show ?thesis using 3 by simp
  qed
qed

lemma map_of_sorted_less:
  fixes m :: history
  shows "\<forall>k'\<in>set (map fst m). k < k' \<Longrightarrow> map_of m k = None"
  by (induction m) auto

lemma history_of_map_at:
  "sorted_wrt (<) (map fst m) \<Longrightarrow>
   history_of (map_at k f m) k' = (if k' = k then f (history_of m k) else history_of m k')"
proof (induction k f m rule: map_at.induct)
  case (1 k f)
  show ?case by (simp add: history_of_def)
next
  case (2 k f k0 vs m)
  have "map_of m k = None" if "k < k0"
    using 2(2) that by (intro map_of_sorted_less) auto
  with 2 show ?case
    by (auto simp: history_of_def)
qed

lemma history_eq_map:
  "distinct (map fst m) \<Longrightarrow> m = map (\<lambda>k. (k, history_of m k)) (map fst m)"
proof (induction m)
  case Nil
  show ?case by simp
next
  case (Cons p m)
  obtain k0 vs where p: "p = (k0, vs)" by (cases p)
  have "history_of (p # m) k = history_of m k" if "k \<in> set (map fst m)" for k
    using that Cons.prems unfolding p by (auto simp: history_of_def)
  then have "map (\<lambda>k. (k, history_of (p # m) k)) (map fst m) = map (\<lambda>k. (k, history_of m k)) (map fst m)"
    by (intro map_cong) auto
  with Cons show ?case unfolding p by (simp add: history_of_def)
qed

lemma history_eqI:
  assumes "sorted_wrt (<) (map fst m)" "sorted_wrt (<) (map fst m')"
    and "set (map fst m) = set (map fst m')"
    and "\<And>k. k \<in> set (map fst m) \<Longrightarrow> history_of m k = history_of m' k"
  shows "m = m'"
proof -
  have d: "distinct (map fst m)" "distinct (map fst m')"
    using assms(1,2) by (simp_all add: strict_sorted_iff)
  have k: "map fst m = map fst m'"
    using assms(1-3) by (intro sorted_distinct_set_unique) (simp_all add: strict_sorted_iff)
  have "m = map (\<lambda>k. (k, history_of m k)) (map fst m)" by (rule history_eq_map [OF d(1)])
  also have "\<dots> = map (\<lambda>k. (k, history_of m' k)) (map fst m)"
    using assms(4) by (intro map_cong) auto
  also have "\<dots> = m'" unfolding k by (rule history_eq_map [OF d(2), symmetric])
  finally show ?thesis .
qed

lemma history_of_absent: "k \<notin> set (map fst m) \<Longrightarrow> history_of m k = []"
  by (simp add: history_of_def map_of_eq_None_iff [THEN iffD2])

section \<open>The loops of one cycle\<close>

lemma deref_eq_Inr: "deref h w = Inr wr \<longleftrightarrow> w < length h \<and> wr = h ! w"
  by (auto simp: deref_def)

lemma record_spec_Nil [simp]: "record_spec h V [] hist = hist"
  by (simp add: record_spec_def)

lemma record_spec_Cons:
  "record_spec h V (w # ws) hist =
     record_spec h V ws (map_at (name (h ! w)) (\<lambda>vs. vs @ [V w]) hist)"
  by (simp add: record_spec_def)

lemma record_spec_cong:
  "(\<And>w. w \<in> set ws \<Longrightarrow> V w = V' w) \<Longrightarrow> record_spec h V ws hist = record_spec h V' ws hist"
  by (induction ws arbitrary: hist) (simp_all add: record_spec_Cons)

text \<open>The recording loop, against the values of the wires.\<close>

lemma record_values_sound:
  assumes "cache_ok h ctx" "record_values rtl k h ws hist ctx = Inr (hist', ctx')"
  shows "cache_ok h ctx' \<and> (\<forall>w\<in>set ws. w < length h \<and> (\<exists>v. wire_val h w v)) \<and>
         (\<forall>V. (\<forall>w\<in>set ws. wire_val h w (V w)) \<longrightarrow> hist' = record_spec h V ws hist)"
  using assms
proof (induction ws arbitrary: hist ctx)
  case Nil
  then show ?case by simp
next
  case (Cons w ws)
  from Cons.prems(2) obtain v c1 where
    1: "wire_value rtl k h (Some w) ctx = Inr (v, c1)" and len: "w < length h" and
    2: "record_values rtl k h ws (map_at (name (h ! w)) (\<lambda>vs. vs @ [v]) hist) c1 = Inr (hist', ctx')"
    by (auto simp: bindE_eq_Inr deref_eq_Inr)
  from wire_value_sound [OF Cons.prems(1) 1] have v: "wire_val h w v" and ok: "cache_ok h c1"
    by simp_all
  note ih = Cons.IH [OF ok 2]
  have "hist' = record_spec h V (w # ws) hist" if V: "\<forall>u\<in>set (w # ws). wire_val h u (V u)" for V
  proof -
    from V v have "V w = v" by (auto intro: wire_val_unique)
    with ih V show ?thesis by (simp add: record_spec_Cons)
  qed
  with ih v len show ?case by auto
qed

lemma record_values_complete:
  assumes "cache_ok h ctx" "\<forall>w\<in>set ws. w < length h \<and> naive_wire k h (Some w) = Inr (V w)"
  shows "\<exists>ctx'. record_values rtl k h ws hist ctx = Inr (record_spec h V ws hist, ctx') \<and>
                cache_ok h ctx'"
  using assms
proof (induction ws arbitrary: hist ctx)
  case Nil
  then show ?case by simp
next
  case (Cons w ws)
  from Cons.prems(2) have len: "w < length h" and n: "naive_wire k h (Some w) = Inr (V w)"
    by simp_all
  from memo_complete [of h k rtl] Cons.prems(1) n obtain c1 where
    1: "wire_value rtl k h (Some w) ctx = Inr (V w, c1)" by blast
  from wire_value_sound [OF Cons.prems(1) 1] have ok: "cache_ok h c1" by simp
  from Cons.IH [OF ok, of "map_at (name (h ! w)) (\<lambda>vs. vs @ [V w]) hist"] Cons.prems(2)
  obtain ctx' where
    "record_values rtl k h ws (map_at (name (h ! w)) (\<lambda>vs. vs @ [V w]) hist) c1
       = Inr (record_spec h V ws (map_at (name (h ! w)) (\<lambda>vs. vs @ [V w]) hist), ctx')"
    "cache_ok h ctx'" by auto
  with 1 len show ?case by (simp add: record_spec_Cons deref_def)
qed

text \<open>The loop of the registered roots.\<close>

lemma eval_next_values_sound:
  assumes "cache_ok h ctx" "eval_next_values rtl k h ws nv ctx = Inr (nv', ctx')"
  shows "cache_ok h ctx' \<and>
         (\<forall>w\<in>set ws. w < length h \<and> (\<forall>e. next_expr (h ! w) = Some e \<longrightarrow> (\<exists>v. node_val h (Some e) v))) \<and>
         (\<forall>N. (\<forall>w\<in>set ws. \<forall>e. next_expr (h ! w) = Some e \<longrightarrow> node_val h (Some e) (N w)) \<longrightarrow>
              nv' = next_spec h N (set ws) nv)"
  using assms
proof (induction ws arbitrary: nv ctx)
  case Nil
  then show ?case by (simp add: next_spec_def)
next
  case (Cons w ws)
  from Cons.prems(2) have len: "w < length h"
    by (auto simp: bindE_eq_Inr deref_eq_Inr)
  show ?case
  proof (cases "next_expr (h ! w)")
    case None
    with Cons.prems(2) len have 2: "eval_next_values rtl k h ws nv ctx = Inr (nv', ctx')"
      by (simp add: deref_def)
    note ih = Cons.IH [OF Cons.prems(1) 2]
    have "next_spec h N (set (w # ws)) nv = next_spec h N (set ws) nv" for N
      using None by (auto simp: next_spec_def fun_eq_iff)
    with ih len None show ?thesis by auto
  next
    case (Some e)
    with Cons.prems(2) len obtain v c1 where
      1: "eval_node rtl k h (Some e) ctx = Inr (v, c1)" and
      2: "eval_next_values rtl k h ws (nv(w \<mapsto> v)) c1 = Inr (nv', ctx')"
      by (auto simp: bindE_eq_Inr deref_def)
    from eval_node_sound [OF Cons.prems(1) 1] have v: "node_val h (Some e) v" and ok: "cache_ok h c1"
      by simp_all
    note ih = Cons.IH [OF ok 2]
    have "nv' = next_spec h N (set (w # ws)) nv"
      if N: "\<forall>u\<in>set (w # ws). \<forall>e. next_expr (h ! u) = Some e \<longrightarrow> node_val h (Some e) (N u)" for N
    proof -
      from N v Some have "N w = v" by (auto intro: node_val_unique)
      moreover from ih N have "nv' = next_spec h N (set ws) (nv(w \<mapsto> v))" by (meson list.set_intros(2))
      ultimately show ?thesis using Some by (auto simp: next_spec_def fun_eq_iff)
    qed
    with ih v len Some show ?thesis by auto
  qed
qed

lemma eval_next_values_complete:
  assumes "cache_ok h ctx"
    "\<forall>w\<in>set ws. w < length h \<and> (\<forall>e. next_expr (h ! w) = Some e \<longrightarrow> naive_node k h (Some e) = Inr (N w))"
  shows "\<exists>ctx'. eval_next_values rtl k h ws nv ctx = Inr (next_spec h N (set ws) nv, ctx')"
  using assms
proof (induction ws arbitrary: nv ctx)
  case Nil
  then show ?case by (simp add: next_spec_def)
next
  case (Cons w ws)
  from Cons.prems(2) have len: "w < length h" by simp
  show ?case
  proof (cases "next_expr (h ! w)")
    case None
    have "next_spec h N (set (w # ws)) nv = next_spec h N (set ws) nv"
      using None by (auto simp: next_spec_def fun_eq_iff)
    with Cons.IH [OF Cons.prems(1), of nv] Cons.prems(2) None len show ?thesis
      by (simp add: deref_def)
  next
    case (Some e)
    with Cons.prems(2) have n: "naive_node k h (Some e) = Inr (N w)" by simp
    from memo_complete [of h k rtl] Cons.prems(1) n obtain c1 where
      1: "eval_node rtl k h (Some e) ctx = Inr (N w, c1)" by blast
    from eval_node_sound [OF Cons.prems(1) 1] have ok: "cache_ok h c1" by simp
    have "next_spec h N (set (w # ws)) nv = next_spec h N (set ws) (nv(w \<mapsto> N w))"
      using Some by (auto simp: next_spec_def fun_eq_iff)
    moreover from Cons.IH [OF ok, of "nv(w \<mapsto> N w)"] Cons.prems(2)
    obtain ctx' where
      "eval_next_values rtl k h ws (nv(w \<mapsto> N w)) c1 = Inr (next_spec h N (set ws) (nv(w \<mapsto> N w)), ctx')"
      by (meson list.set_intros(2))
    ultimately show ?thesis using Some len 1
      by (simp add: deref_def del: fun_upd_apply)
  qed
qed

text \<open>Writing a map of values to the committed values.\<close>

lemma length_commit_spec [simp]: "length (commit_spec m S h) = length h"
  by (simp add: commit_spec_def)

lemma nth_commit_spec:
  "i < length h \<Longrightarrow>
   commit_spec m S h ! i =
     (case m i of Some v \<Rightarrow> if i \<in> S then (h ! i)\<lparr>committed_value := v\<rparr> else h ! i
                | None \<Rightarrow> h ! i)"
  by (simp add: commit_spec_def split: option.splits)

lemma write_committed_complete:
  "\<forall>w\<in>set ws. m w \<noteq> None \<longrightarrow> w < length h \<Longrightarrow>
   write_committed m ws h = Inr (commit_spec m (set ws) h)"
proof (induction ws arbitrary: h)
  case Nil
  have "commit_spec m {} h = h"
    by (rule nth_equalityI) (simp_all add: nth_commit_spec split: option.splits)
  then show ?case by simp
next
  case (Cons w ws)
  show ?case
  proof (cases "m w")
    case None
    have "commit_spec m (set (w # ws)) h = commit_spec m (set ws) h"
      by (rule nth_equalityI) (use None in \<open>auto simp: nth_commit_spec split: option.splits\<close>)
    with Cons None show ?thesis by simp
  next
    case (Some v)
    with Cons.prems have len: "w < length h" by simp
    let ?h1 = "h[w := (h ! w)\<lparr>committed_value := v\<rparr>]"
    have "commit_spec m (set (w # ws)) h = commit_spec m (set ws) ?h1"
      by (rule nth_equalityI)
         (use Some len in \<open>auto simp: nth_commit_spec nth_list_update split: option.splits\<close>)
    moreover have "write_committed m ws ?h1 = Inr (commit_spec m (set ws) ?h1)"
      using Cons.prems by (intro Cons.IH) simp
    ultimately show ?thesis using Some len by simp
  qed
qed

lemma write_committed_valid:
  "write_committed m ws h = Inr h' \<Longrightarrow> \<forall>w\<in>set ws. m w \<noteq> None \<longrightarrow> w < length h"
proof (induction ws arbitrary: h)
  case Nil
  show ?case by simp
next
  case (Cons w ws)
  show ?case
  proof (cases "m w")
    case None
    with Cons show ?thesis by simp
  next
    case (Some v)
    with Cons.prems have len: "w < length h"
      and 1: "write_committed m ws (h[w := (h ! w)\<lparr>committed_value := v\<rparr>]) = Inr h'"
      by (auto split: if_splits)
    from Cons.IH [OF 1] len show ?thesis by simp
  qed
qed

lemma write_committed_sound:
  "write_committed m ws h = Inr h' \<Longrightarrow> h' = commit_spec m (set ws) h"
  using write_committed_complete [OF write_committed_valid] by fastforce

section \<open>One cycle\<close>

lemma uniform_fuel:
  assumes "finite S" "\<forall>w\<in>S. \<exists>k0. \<forall>k\<ge>k0. P w (k :: nat)"
  shows "\<exists>K. \<forall>w\<in>S. \<forall>k\<ge>K. P w k"
  using assms
proof (induction S)
  case empty
  show ?case by simp
next
  case (insert x F)
  then obtain K where K: "\<forall>w\<in>F. \<forall>k\<ge>K. P w k" by auto
  from insert.prems obtain k0 where k0: "\<forall>k\<ge>k0. P x k" by auto
  have "\<forall>w\<in>insert x F. \<forall>k\<ge>max K k0. P w k" using K k0 by auto
  then show ?case by blast
qed

lemma length_next_state [simp]: "length (next_state h N S) = length h"
  by (simp add: next_state_def)

lemma nth_next_state:
  "i < length h \<Longrightarrow>
   next_state h N S ! i =
     (if i \<in> S \<and> next_expr (h ! i) \<noteq> None then (h ! i)\<lparr>committed_value := N i\<rparr> else h ! i)"
  by (auto simp: next_state_def)

lemma commit_next_spec:
  "commit_spec (next_spec h N S Map.empty) (dom (next_spec h N S Map.empty)) h = next_state h N S"
proof (rule nth_equalityI)
  fix i assume "i < length (commit_spec (next_spec h N S Map.empty) (dom (next_spec h N S Map.empty)) h)"
  then have i: "i < length h" by simp
  show "commit_spec (next_spec h N S Map.empty) (dom (next_spec h N S Map.empty)) h ! i
        = next_state h N S ! i"
  proof (cases "i \<in> S \<and> next_expr (h ! i) \<noteq> None")
    case True
    then have "next_spec h N S Map.empty i = Some (N i)" by (simp add: next_spec_def)
    then show ?thesis using i True by (auto simp: nth_commit_spec nth_next_state dom_def)
  next
    case False
    then have "next_spec h N S Map.empty i = None" by (auto simp: next_spec_def)
    then show ?thesis using i False by (auto simp: nth_commit_spec nth_next_state)
  qed
qed simp

lemma dom_next_spec: "dom (next_spec h N S Map.empty) \<subseteq> S"
  by (auto simp: next_spec_def split: if_splits)

lemma cycle_sound:
  assumes en: "enumerates enum" and c: "cycle enum rtl k ws (hist, h) = Inr (hist', h')"
  shows "cycle_rel h ws hist hist' h'"
proof -
  from c obtain c1 nv c2 where
    1: "record_values rtl k h ws hist empty_ctx = Inr (hist', c1)" and
    2: "eval_next_values rtl k h ws Map.empty c1 = Inr (nv, c2)" and
    3: "write_committed nv (enum (dom nv)) h = Inr h'"
    by (auto simp: cycle_def bindE_eq_Inr)
  note r = record_values_sound [OF cache_ok_empty 1]
  from r have ok: "cache_ok h c1" by simp
  note n = eval_next_values_sound [OF ok 2]
  from r have "\<forall>w\<in>set ws. \<exists>v. wire_val h w v" by blast
  then obtain V where V: "\<forall>w\<in>set ws. wire_val h w (V w)" by (rule bchoice [THEN exE])
  from n have "\<forall>w\<in>set ws. \<exists>v. \<forall>e. next_expr (h ! w) = Some e \<longrightarrow> node_val h (Some e) v"
    by (metis option.inject)
  then obtain N where N: "\<forall>w\<in>set ws. \<forall>e. next_expr (h ! w) = Some e \<longrightarrow> node_val h (Some e) (N w)"
    by (rule bchoice [THEN exE])
  from r V have h1: "hist' = record_spec h V ws hist" by blast
  from n N have nv: "nv = next_spec h N (set ws) Map.empty" by blast
  have "finite (dom nv)" unfolding nv by (rule finite_subset [OF dom_next_spec]) simp
  with en have "set (enum (dom nv)) = dom nv" by (simp add: enumerates_def)
  with write_committed_sound [OF 3] have "h' = next_state h N (set ws)"
    unfolding nv by (simp add: commit_next_spec)
  with h1 V N r show ?thesis unfolding cycle_rel_def by blast
qed

lemma cycle_complete:
  assumes en: "enumerates enum" and c: "cycle_rel h ws hist hist' h'"
  shows "\<exists>K. \<forall>k\<ge>K. cycle enum rtl k ws (hist, h) = Inr (hist', h')"
proof -
  from c obtain V N where
    v: "\<forall>w\<in>set ws. w < length h \<and> wire_val h w (V w) \<and>
          (\<forall>e. next_expr (h ! w) = Some e \<longrightarrow> node_val h (Some e) (N w))"
    and h1: "hist' = record_spec h V ws hist" and h2: "h' = next_state h N (set ws)"
    unfolding cycle_rel_def by blast
  have ex: "\<forall>w\<in>set ws. \<exists>k0. \<forall>k\<ge>k0. naive_wire k h (Some w) = Inr (V w) \<and>
          (\<forall>e. next_expr (h ! w) = Some e \<longrightarrow> naive_node k h (Some e) = Inr (N w))"
  proof
    fix w assume w: "w \<in> set ws"
    from v w obtain k1 where k1: "\<forall>k\<ge>k1. naive_wire k h (Some w) = Inr (V w)"
      unfolding wire_val_from by blast
    have "\<exists>k2. \<forall>k\<ge>k2. \<forall>e. next_expr (h ! w) = Some e \<longrightarrow> naive_node k h (Some e) = Inr (N w)"
    proof (cases "next_expr (h ! w)")
      case None
      then show ?thesis by simp
    next
      case (Some e)
      with v w show ?thesis unfolding node_val_from by auto
    qed
    then obtain k2 where
      "\<forall>k\<ge>k2. \<forall>e. next_expr (h ! w) = Some e \<longrightarrow> naive_node k h (Some e) = Inr (N w)" by blast
    with k1 have "\<forall>k\<ge>max k1 k2. naive_wire k h (Some w) = Inr (V w) \<and>
          (\<forall>e. next_expr (h ! w) = Some e \<longrightarrow> naive_node k h (Some e) = Inr (N w))" by simp
    then show "\<exists>k0. \<forall>k\<ge>k0. naive_wire k h (Some w) = Inr (V w) \<and>
          (\<forall>e. next_expr (h ! w) = Some e \<longrightarrow> naive_node k h (Some e) = Inr (N w))" by blast
  qed
  from uniform_fuel [OF finite_set ex] obtain K where
    K: "\<forall>w\<in>set ws. \<forall>k\<ge>K. naive_wire k h (Some w) = Inr (V w) \<and>
          (\<forall>e. next_expr (h ! w) = Some e \<longrightarrow> naive_node k h (Some e) = Inr (N w))"
    by blast
  have "cycle enum rtl k ws (hist, h) = Inr (hist', h')" if k: "k \<ge> K" for k
  proof -
    from K k v have a: "\<forall>w\<in>set ws. w < length h \<and> naive_wire k h (Some w) = Inr (V w)"
      and b: "\<forall>w\<in>set ws. w < length h \<and>
                (\<forall>e. next_expr (h ! w) = Some e \<longrightarrow> naive_node k h (Some e) = Inr (N w))"
      by auto
    from record_values_complete [OF cache_ok_empty a, of rtl hist] obtain c1 where
      1: "record_values rtl k h ws hist empty_ctx = Inr (hist', c1)" and ok: "cache_ok h c1"
      unfolding h1 by blast
    from eval_next_values_complete [OF ok b, of rtl Map.empty] obtain c2 where
      2: "eval_next_values rtl k h ws Map.empty c1 = Inr (next_spec h N (set ws) Map.empty, c2)"
      by blast
    let ?nv = "next_spec h N (set ws) Map.empty"
    have "finite (dom ?nv)" by (rule finite_subset [OF dom_next_spec]) simp
    with en have e: "set (enum (dom ?nv)) = dom ?nv" by (simp add: enumerates_def)
    have "\<forall>w\<in>set (enum (dom ?nv)). ?nv w \<noteq> None \<longrightarrow> w < length h"
      unfolding e using dom_next_spec [of h N "set ws"] v by blast
    from write_committed_complete [OF this]
    have 3: "write_committed ?nv (enum (dom ?nv)) h = Inr h'"
      unfolding e h2 by (simp add: commit_next_spec)
    from 1 2 3 show ?thesis by (simp add: cycle_def)
  qed
  then show ?thesis by blast
qed

lemma record_spec_history:
  assumes "sorted_wrt (<) (map fst hist)"
  shows "sorted_wrt (<) (map fst (record_spec h V ws hist)) \<and>
         set (map fst (record_spec h V ws hist)) = set (map fst hist) \<union> (\<lambda>w. name (h ! w)) ` set ws \<and>
         (\<forall>k. history_of (record_spec h V ws hist) k =
                history_of hist k @ map V (filter (\<lambda>w. name (h ! w) = k) ws))"
  using assms
proof (induction ws arbitrary: hist)
  case Nil
  then show ?case by simp
next
  case (Cons w ws)
  let ?m = "map_at (name (h ! w)) (\<lambda>vs. vs @ [V w]) hist"
  have s: "sorted_wrt (<) (map fst ?m)" by (rule sorted_map_at [OF Cons.prems])
  have k: "set (map fst ?m) = insert (name (h ! w)) (set (map fst hist))" by (rule keys_map_at)
  note ih = Cons.IH [OF s]
  have "set (map fst (record_spec h V ws ?m))
        = set (map fst hist) \<union> (\<lambda>w. name (h ! w)) ` set (w # ws)"
    using ih unfolding k by auto
  moreover have "history_of (record_spec h V ws ?m) k =
        history_of hist k @ map V (filter (\<lambda>u. name (h ! u) = k) (w # ws))" for k
    using ih by (simp add: history_of_map_at [OF Cons.prems])
  ultimately show ?case
    unfolding record_spec_Cons using ih by blast
qed

lemma distinct_single:
  assumes "distinct xs" "\<forall>x\<in>set xs. \<forall>y\<in>set xs. x = y"
  shows "xs = [] \<or> xs = [hd xs]"
proof (cases xs)
  case Nil
  then show ?thesis by simp
next
  case (Cons x xs')
  have "xs' = []"
  proof (cases xs')
    case Nil
    then show ?thesis .
  next
    case (Cons y zs)
    with assms(1) \<open>xs = x # xs'\<close> have "x \<noteq> y" by simp
    moreover have "x \<in> set xs" "y \<in> set xs" unfolding \<open>xs = x # xs'\<close> Cons by simp_all
    with assms(2) have "x = y" by blast
    ultimately show ?thesis by simp
  qed
  with Cons show ?thesis by simp
qed

lemma distinct_small:
  assumes "distinct xs" "distinct ys" "set xs = set ys" "\<forall>x\<in>set xs. \<forall>y\<in>set xs. x = y"
  shows "xs = ys"
proof -
  from distinct_single [OF assms(1,4)] have x: "xs = [] \<or> xs = [hd xs]" .
  from assms(3,4) have "\<forall>x\<in>set ys. \<forall>y\<in>set ys. x = y" by simp
  from distinct_single [OF assms(2) this] have y: "ys = [] \<or> ys = [hd ys]" .
  show ?thesis
  proof (cases "xs = []")
    case True
    with assms(3) show ?thesis by simp
  next
    case False
    with x have x1: "xs = [hd xs]" by simp
    with assms(3) have "ys \<noteq> []" by auto
    with y have y1: "ys = [hd ys]" by simp
    from assms(3) have "set [hd xs] = set [hd ys]" using x1 y1 by metis
    then have "hd xs = hd ys" by simp
    with x1 y1 show ?thesis by metis
  qed
qed

lemma filter_unique:
  assumes "distinct ws" "distinct ws'" "set ws = set ws'"
    and "\<forall>x\<in>set ws. \<forall>y\<in>set ws. P x \<longrightarrow> P y \<longrightarrow> x = y"
  shows "filter P ws = filter P ws'"
  using assms by (intro distinct_small) auto

lemma record_spec_order:
  assumes "sorted_wrt (<) (map fst hist)" "distinct ws" "distinct ws'" "set ws = set ws'"
    and "inj_on (\<lambda>w. name (h ! w)) (set ws)"
  shows "record_spec h V ws hist = record_spec h V ws' hist"
proof (rule history_eqI)
  note a = record_spec_history [OF assms(1), of h V ws]
  note b = record_spec_history [OF assms(1), of h V ws']
  show "sorted_wrt (<) (map fst (record_spec h V ws hist))" using a by simp
  show "sorted_wrt (<) (map fst (record_spec h V ws' hist))" using b by simp
  show "set (map fst (record_spec h V ws hist)) = set (map fst (record_spec h V ws' hist))"
    using a b assms(4) by simp
  fix k
  have "filter (\<lambda>w. name (h ! w) = k) ws = filter (\<lambda>w. name (h ! w) = k) ws'"
    using assms(2-5) by (intro filter_unique) (auto dest: inj_onD)
  then show "history_of (record_spec h V ws hist) k = history_of (record_spec h V ws' hist) k"
    using a b by simp
qed

lemma cycle_rel_order:
  assumes "cycle_rel h ws hist hist' h'"
    and "sorted_wrt (<) (map fst hist)" "distinct ws" "distinct ws'" "set ws = set ws'"
    and "inj_on (\<lambda>w. name (h ! w)) (set ws)"
  shows "cycle_rel h ws' hist hist' h'"
proof -
  from assms(1) obtain V N where
    v: "\<forall>w\<in>set ws. w < length h \<and> wire_val h w (V w) \<and>
          (\<forall>e. next_expr (h ! w) = Some e \<longrightarrow> node_val h (Some e) (N w))"
    and h1: "hist' = record_spec h V ws hist" and h2: "h' = next_state h N (set ws)"
    unfolding cycle_rel_def by blast
  from record_spec_order [OF assms(2-6)] h1 have "hist' = record_spec h V ws' hist" by simp
  with v h2 assms(5) show ?thesis unfolding cycle_rel_def by auto
qed

lemma cycle_rel_same_circuit:
  assumes "cycle_rel h ws hist hist' h'"
  shows "same_circuit h h'" "\<forall>i<length h. i \<notin> set ws \<longrightarrow> h' ! i = h ! i"
    "sorted_wrt (<) (map fst hist) \<Longrightarrow> sorted_wrt (<) (map fst hist')"
proof -
  from assms obtain V N where
    h1: "hist' = record_spec h V ws hist" and h2: "h' = next_state h N (set ws)"
    unfolding cycle_rel_def by blast
  show "same_circuit h h'"
    unfolding same_circuit_def h2
  proof (intro conjI allI impI)
    fix i assume i: "i < length h"
    show "\<exists>v. next_state h N (set ws) ! i = (h ! i)\<lparr>committed_value := v\<rparr>"
    proof (cases "i \<in> set ws \<and> next_expr (h ! i) \<noteq> None")
      case True
      then show ?thesis using i by (auto simp: nth_next_state)
    next
      case False
      then have "next_state h N (set ws) ! i = (h ! i)\<lparr>committed_value := committed_value (h ! i)\<rparr>"
        using i by (auto simp: nth_next_state)
      then show ?thesis by blast
    qed
  qed simp
  show "\<forall>i<length h. i \<notin> set ws \<longrightarrow> h' ! i = h ! i"
    unfolding h2 by (simp add: nth_next_state)
  show "sorted_wrt (<) (map fst hist')" if "sorted_wrt (<) (map fst hist)"
    unfolding h1 using record_spec_history [OF that] by simp
qed

lemma same_circuit_refl: "same_circuit h h"
proof -
  have "h ! i = (h ! i)\<lparr>committed_value := committed_value (h ! i)\<rparr>" for i by simp
  then show ?thesis unfolding same_circuit_def by blast
qed

lemma same_circuit_trans: "same_circuit h h1 \<Longrightarrow> same_circuit h1 h2 \<Longrightarrow> same_circuit h h2"
  unfolding same_circuit_def
proof (intro conjI allI impI)
  assume a: "length h1 = length h \<and> (\<forall>i<length h. \<exists>v. h1 ! i = (h ! i)\<lparr>committed_value := v\<rparr>)"
    and b: "length h2 = length h1 \<and> (\<forall>i<length h1. \<exists>v. h2 ! i = (h1 ! i)\<lparr>committed_value := v\<rparr>)"
  show "length h2 = length h" using a b by simp
  fix i assume i: "i < length h"
  with a obtain v where v: "h1 ! i = (h ! i)\<lparr>committed_value := v\<rparr>" by blast
  from b i a obtain v' where "h2 ! i = (h1 ! i)\<lparr>committed_value := v'\<rparr>" by auto
  with v have "h2 ! i = (h ! i)\<lparr>committed_value := v'\<rparr>" by simp
  then show "\<exists>v. h2 ! i = (h ! i)\<lparr>committed_value := v\<rparr>" by blast
qed

lemma same_circuit_fields:
  assumes "same_circuit h h'" "i < length h"
  shows "name (h' ! i) = name (h ! i)" "comb_expr (h' ! i) = comb_expr (h ! i)"
    "next_expr (h' ! i) = next_expr (h ! i)"
proof -
  from assms obtain v where "h' ! i = (h ! i)\<lparr>committed_value := v\<rparr>"
    unfolding same_circuit_def by blast
  then show "name (h' ! i) = name (h ! i)" "comb_expr (h' ! i) = comb_expr (h ! i)"
    "next_expr (h' ! i) = next_expr (h ! i)" by simp_all
qed

section \<open>Fuel of the driver\<close>

lemma record_values_mono:
  "k \<le> k' \<Longrightarrow> res_le (record_values rtl k h ws hist ctx) (record_values rtl k' h ws hist ctx)"
  by (induction ws arbitrary: hist ctx)
     (auto intro!: res_le_intros wire_value_mono res_le_refl)

lemma eval_next_values_mono:
  "k \<le> k' \<Longrightarrow> res_le (eval_next_values rtl k h ws nv ctx) (eval_next_values rtl k' h ws nv ctx)"
proof (induction ws arbitrary: nv ctx)
  case Nil
  show ?case by (simp add: res_le_refl)
next
  case (Cons w ws)
  show ?case unfolding eval_next_values.simps
    by (intro res_le_intros eval_node_mono Cons res_le_refl)
qed

lemma cycle_mono: "k \<le> k' \<Longrightarrow> res_le (cycle enum rtl k ws st) (cycle enum rtl k' ws st)"
  unfolding cycle_def
  by (intro res_le_intros record_values_mono eval_next_values_mono res_le_refl)

lemma run_cycles_mono:
  "k \<le> k' \<Longrightarrow> res_le (run_cycles enum rtl k ws n st) (run_cycles enum rtl k' ws n st)"
  by (induction n arbitrary: st) (auto intro!: res_le_intros cycle_mono res_le_refl)

lemma simulate_mono:
  "k \<le> k' \<Longrightarrow>
   res_le (simulate enum rtl k h ts cycles restore) (simulate enum rtl k' h ts cycles restore)"
  unfolding simulate_def Let_def
  by (intro res_le_intros closure_from_targets_mono run_cycles_mono res_le_refl)

section \<open>Runs of several cycles\<close>

lemma run_cycles_sound:
  assumes "enumerates enum"
  shows "run_cycles enum rtl k ws n st = Inr st' \<Longrightarrow> run_rel ws n st st'"
proof (induction n arbitrary: st)
  case 0
  then show ?case by simp
next
  case (Suc n)
  from Suc.prems obtain st1 where 1: "cycle enum rtl k ws st = Inr st1"
    and 2: "run_cycles enum rtl k ws n st1 = Inr st'"
    by (auto simp: bindE_eq_Inr)
  obtain hist h where st: "st = (hist, h)" by (cases st)
  obtain hist1 h1 where st1: "st1 = (hist1, h1)" by (cases st1)
  from cycle_sound [OF assms 1 [unfolded st st1]] Suc.IH [OF 2]
  show ?case unfolding st st1 by auto
qed

lemma run_cycles_complete:
  assumes "enumerates enum"
  shows "run_rel ws n st st' \<Longrightarrow> \<exists>K. \<forall>k\<ge>K. run_cycles enum rtl k ws n st = Inr st'"
proof (induction n arbitrary: st)
  case 0
  then show ?case by simp
next
  case (Suc n)
  obtain hist h where st: "st = (hist, h)" by (cases st)
  from Suc.prems obtain hist1 h1 where 1: "cycle_rel h ws hist hist1 h1"
    and 2: "run_rel ws n (hist1, h1) st'"
    unfolding st by auto
  from cycle_complete [OF assms 1, of rtl] obtain K1 where
    K1: "\<forall>k\<ge>K1. cycle enum rtl k ws (hist, h) = Inr (hist1, h1)" by blast
  from Suc.IH [OF 2] obtain K2 where
    K2: "\<forall>k\<ge>K2. run_cycles enum rtl k ws n (hist1, h1) = Inr st'" by blast
  have "\<forall>k\<ge>max K1 K2. run_cycles enum rtl k ws (Suc n) st = Inr st'"
    using K1 K2 unfolding st by simp
  then show ?case by blast
qed

lemma run_rel_same_circuit:
  "run_rel ws n (hist, h) (hist', h') \<Longrightarrow>
   same_circuit h h' \<and> (\<forall>i<length h. i \<notin> set ws \<longrightarrow> h' ! i = h ! i) \<and>
   (sorted_wrt (<) (map fst hist) \<longrightarrow> sorted_wrt (<) (map fst hist'))"
proof (induction n arbitrary: hist h)
  case 0
  then show ?case by (simp add: same_circuit_refl)
next
  case (Suc n)
  from Suc.prems obtain hist1 h1 where 1: "cycle_rel h ws hist hist1 h1"
    and 2: "run_rel ws n (hist1, h1) (hist', h')"
    by auto
  note c = cycle_rel_same_circuit [OF 1]
  note ih = Suc.IH [OF 2]
  from c(1) have len: "length h1 = length h" by (simp add: same_circuit_def)
  have "same_circuit h h'" using c(1) ih by (blast intro: same_circuit_trans)
  moreover have "\<forall>i<length h. i \<notin> set ws \<longrightarrow> h' ! i = h ! i"
    using c(2) ih len by simp
  moreover have "sorted_wrt (<) (map fst hist) \<longrightarrow> sorted_wrt (<) (map fst hist')"
    using c(3) ih by blast
  ultimately show ?case by blast
qed

lemma inj_on_same_circuit:
  assumes "same_circuit h h'" "\<forall>w\<in>S. w < length h" "inj_on (\<lambda>w. name (h ! w)) S"
  shows "inj_on (\<lambda>w. name (h' ! w)) S"
proof -
  have "name (h' ! w) = name (h ! w)" if "w \<in> S" for w
    using same_circuit_fields(1) [OF assms(1)] assms(2) that by blast
  then show ?thesis using assms(3) by (simp add: inj_on_def)
qed

lemma cycle_rel_valid: "cycle_rel h ws hist hist' h' \<Longrightarrow> \<forall>w\<in>set ws. w < length h"
  unfolding cycle_rel_def by blast

lemma run_rel_order:
  assumes "distinct ws" "distinct ws'" "set ws = set ws'"
  shows "run_rel ws n (hist, h) st' \<Longrightarrow> sorted_wrt (<) (map fst hist) \<Longrightarrow>
         inj_on (\<lambda>w. name (h ! w)) (set ws) \<Longrightarrow> run_rel ws' n (hist, h) st'"
proof (induction n arbitrary: hist h)
  case 0
  then show ?case by simp
next
  case (Suc n)
  from Suc.prems(1) obtain hist1 h1 where 1: "cycle_rel h ws hist hist1 h1"
    and 2: "run_rel ws n (hist1, h1) st'"
    by auto
  from cycle_rel_order [OF 1 Suc.prems(2) assms Suc.prems(3)]
  have 3: "cycle_rel h ws' hist hist1 h1" .
  note c = cycle_rel_same_circuit [OF 1]
  have "inj_on (\<lambda>w. name (h1 ! w)) (set ws)"
    by (rule inj_on_same_circuit [OF c(1) cycle_rel_valid [OF 1] Suc.prems(3)])
  from Suc.IH [OF 2 c(3) [OF Suc.prems(2)] this] 3
  show ?case by auto
qed

section \<open>The parts of simulate\<close>

lemma simulate_eq_Inr:
  "simulate enum rtl fuel h ts cycles restore = Inr (hist, hfin) \<longleftrightarrow>
   (\<exists>S saved hist0 h1.
      closure_from_targets enum fuel h ts = Inr S \<and>
      (if restore then save_state h (enum S) Map.empty else Inr Map.empty) = Inr saved \<and>
      init_history h (enum S) [] = Inr hist0 \<and>
      run_cycles enum rtl fuel (enum S) (nat cycles) (hist0, h) = Inr (hist, h1) \<and>
      (if restore then write_committed saved (enum (dom saved)) h1 else Inr h1) = Inr hfin)"
  unfolding simulate_def Let_def by (auto simp: bindE_eq_Inr)

lemma save_state_eq:
  "\<forall>w\<in>set ws. w < length h \<Longrightarrow>
   save_state h ws saved =
     Inr (\<lambda>w. if w \<in> set ws then Some (committed_value (h ! w)) else saved w)"
proof (induction ws arbitrary: saved)
  case Nil
  show ?case by simp
next
  case (Cons w ws)
  have "(\<lambda>u. if u \<in> set ws then Some (committed_value (h ! u)) else (saved(w \<mapsto> committed_value (h ! w))) u)
      = (\<lambda>u. if u \<in> set (w # ws) then Some (committed_value (h ! u)) else saved u)"
    by (auto simp: fun_eq_iff)
  with Cons show ?case by (simp add: deref_def del: fun_upd_apply)
qed

lemma save_state_spec:
  "\<forall>w\<in>set ws. w < length h \<Longrightarrow> save_state h ws Map.empty = Inr (save_spec h (set ws))"
  by (simp add: save_state_eq save_spec_def)

lemma dom_save_spec [simp]: "dom (save_spec h S) = S"
  by (auto simp: save_spec_def split: if_splits)

lemma init_history_eq:
  "\<forall>w\<in>set ws. w < length h \<Longrightarrow> init_history h ws hist = Inr (init_spec h ws hist)"
  by (induction ws arbitrary: hist) (simp_all add: init_spec_def deref_def)

lemma init_spec_history:
  assumes "sorted_wrt (<) (map fst hist)"
  shows "sorted_wrt (<) (map fst (init_spec h ws hist)) \<and>
         set (map fst (init_spec h ws hist)) = set (map fst hist) \<union> (\<lambda>w. name (h ! w)) ` set ws \<and>
         (\<forall>k. history_of (init_spec h ws hist) k =
                (if k \<in> (\<lambda>w. name (h ! w)) ` set ws then [] else history_of hist k))"
  using assms
proof (induction ws arbitrary: hist)
  case Nil
  then show ?case by (simp add: init_spec_def)
next
  case (Cons w ws)
  let ?m = "map_at (name (h ! w)) (\<lambda>_. []) hist"
  have s: "sorted_wrt (<) (map fst ?m)" by (rule sorted_map_at [OF Cons.prems])
  have k: "set (map fst ?m) = insert (name (h ! w)) (set (map fst hist))" by (rule keys_map_at)
  have c: "init_spec h (w # ws) hist = init_spec h ws ?m" by (simp add: init_spec_def)
  note ih = Cons.IH [OF s]
  have "set (map fst (init_spec h ws ?m))
        = set (map fst hist) \<union> (\<lambda>w. name (h ! w)) ` set (w # ws)"
    using ih unfolding k by auto
  moreover have "history_of (init_spec h ws ?m) k =
        (if k \<in> (\<lambda>w. name (h ! w)) ` set (w # ws) then [] else history_of hist k)" for k
    using ih by (simp add: history_of_map_at [OF Cons.prems])
  ultimately show ?case
    unfolding c using ih by blast
qed

lemma init_spec_order:
  assumes "set ws = set ws'"
  shows "init_spec h ws [] = init_spec h ws' []"
proof (rule history_eqI)
  have s: "sorted_wrt (<) (map fst ([] :: history))" by simp
  note a = init_spec_history [OF s, of h ws]
  note b = init_spec_history [OF s, of h ws']
  show "sorted_wrt (<) (map fst (init_spec h ws []))" using a by simp
  show "sorted_wrt (<) (map fst (init_spec h ws' []))" using b by simp
  show "set (map fst (init_spec h ws [])) = set (map fst (init_spec h ws' []))"
    using a b assms by simp
  fix k
  show "history_of (init_spec h ws []) k = history_of (init_spec h ws' []) k"
    using a b assms by (simp add: history_of_def)
qed

lemma restore_spec:
  assumes "same_circuit h h1" "\<forall>i<length h. i \<notin> S \<longrightarrow> h1 ! i = h ! i"
  shows "commit_spec (save_spec h S) S h1 = h"
proof (rule nth_equalityI)
  from assms(1) have len: "length h1 = length h" by (simp add: same_circuit_def)
  then show "length (commit_spec (save_spec h S) S h1) = length h" by simp
  fix i assume "i < length (commit_spec (save_spec h S) S h1)"
  then have i: "i < length h" using len by simp
  show "commit_spec (save_spec h S) S h1 ! i = h ! i"
  proof (cases "i \<in> S")
    case True
    from assms(1) i obtain v where "h1 ! i = (h ! i)\<lparr>committed_value := v\<rparr>"
      unfolding same_circuit_def by blast
    then show ?thesis using True i len by (simp add: nth_commit_spec save_spec_def)
  next
    case False
    then show ?thesis using assms(2) i len by (simp add: nth_commit_spec save_spec_def)
  qed
qed

text \<open>A successful call, taken apart, with every part stated by its specification.\<close>

lemma simulate_parts:
  assumes en: "enumerates enum"
    and sim: "simulate enum rtl fuel h ts cycles restore = Inr (hist, hfin)"
  obtains h1 where
    "closure_from_targets enum fuel h ts = Inr (reach h (target_set ts))"
    "finite (reach h (target_set ts))" "\<forall>w\<in>reach h (target_set ts). w < length h"
    "run_cycles enum rtl fuel (enum (reach h (target_set ts))) (nat cycles)
       (init_spec h (enum (reach h (target_set ts))) [], h) = Inr (hist, h1)"
    "hfin = (if restore then h else h1)"
proof -
  let ?S = "reach h (target_set ts)"
  from sim obtain S saved hist0 h1 where
    c: "closure_from_targets enum fuel h ts = Inr S" and
    s: "(if restore then save_state h (enum S) Map.empty else Inr Map.empty) = Inr saved" and
    i: "init_history h (enum S) [] = Inr hist0" and
    r: "run_cycles enum rtl fuel (enum S) (nat cycles) (hist0, h) = Inr (hist, h1)" and
    w: "(if restore then write_committed saved (enum (dom saved)) h1 else Inr h1) = Inr hfin"
    unfolding simulate_eq_Inr by blast
  note cs = closure_from_targets_spec [OF en c]
  have S: "S = ?S" by (rule cs(1))
  have es: "set (enum S) = S" "distinct (enum S)" using en cs(3) by (simp_all add: enumerates_def)
  have v: "\<forall>w\<in>set (enum S). w < length h" using cs(2) es by simp
  from i init_history_eq [OF v] have h0: "hist0 = init_spec h (enum S) []" by simp
  have fin: "hfin = (if restore then h else h1)"
  proof (cases restore)
    case False
    with w show ?thesis by simp
  next
    case True
    with s save_state_spec [OF v] es have sv: "saved = save_spec h S" by simp
    from True w have "write_committed saved (enum (dom saved)) h1 = Inr hfin" by simp
    from write_committed_sound [OF this] have "hfin = commit_spec (save_spec h S) S h1"
      unfolding sv using es by simp
    moreover note rr = run_rel_same_circuit [OF run_cycles_sound [OF en r]]
    from rr es have "same_circuit h h1" "\<forall>i<length h. i \<notin> S \<longrightarrow> h1 ! i = h ! i" by simp_all
    from restore_spec [OF this] have "commit_spec (save_spec h S) S h1 = h" .
    ultimately show ?thesis using True by simp
  qed
  show thesis
  proof (rule that [of h1])
    show "closure_from_targets enum fuel h ts = Inr ?S" using c unfolding S .
    show "finite ?S" using cs(3) unfolding S .
    show "\<forall>w\<in>?S. w < length h" using cs(2) unfolding S .
    show "run_cycles enum rtl fuel (enum ?S) (nat cycles) (init_spec h (enum ?S) [], h) = Inr (hist, h1)"
      using r unfolding h0 S .
    show "hfin = (if restore then h else h1)" by (rule fin)
  qed
qed

lemma simulate_build:
  assumes en: "enumerates enum"
    and c: "closure_from_targets enum fuel h ts = Inr S"
    and r: "run_cycles enum rtl fuel (enum S) (nat cycles) (init_spec h (enum S) [], h) = Inr (hist, h1)"
  shows "simulate enum rtl fuel h ts cycles restore = Inr (hist, if restore then h else h1)"
proof -
  note cs = closure_from_targets_spec [OF en c]
  have es: "set (enum S) = S" "distinct (enum S)" using en cs(3) by (simp_all add: enumerates_def)
  have v: "\<forall>w\<in>set (enum S). w < length h" using cs(2) es by simp
  note rr = run_rel_same_circuit [OF run_cycles_sound [OF en r]]
  from rr es have sc: "same_circuit h h1" "\<forall>i<length h. i \<notin> S \<longrightarrow> h1 ! i = h ! i" by simp_all
  then have len: "length h1 = length h" by (simp add: same_circuit_def)
  have "write_committed (save_spec h S) (enum (dom (save_spec h S))) h1
        = Inr (commit_spec (save_spec h S) (set (enum (dom (save_spec h S)))) h1)"
    by (rule write_committed_complete) (use es v len in simp)
  then have "write_committed (save_spec h S) (enum (dom (save_spec h S))) h1 = Inr h"
    using es restore_spec [OF sc] by simp
  then show ?thesis
    unfolding simulate_eq_Inr
    using c r init_history_eq [OF v] save_state_spec [OF v] es by auto
qed

lemma insert_targets_filter:
  "insert_targets (filter (\<lambda>t. t \<noteq> None) ts) S = insert_targets ts S"
  by (induction ts S rule: insert_targets.induct) simp_all

lemma closure_empty: "closure_from_targets enum fuel h ts = Inr {}" if "target_set ts = {}"
  using that by (cases fuel) (simp_all add: closure_from_targets_def insert_targets_eq)

lemma cycle_no_wires:
  "enum {} = [] \<Longrightarrow> cycle enum rtl k [] st = Inr st"
  by (cases st) (simp add: cycle_def)

lemma run_cycles_no_wires:
  "enum {} = [] \<Longrightarrow> run_cycles enum rtl k [] n st = Inr st"
  by (induction n arbitrary: st) (simp_all add: cycle_no_wires)

section \<open>Evaluation of the driver on concrete circuits\<close>

lemma eval_next_values_dom:
  "eval_next_values rtl k h ws nv ctx = Inr (nv', ctx') \<Longrightarrow>
   dom nv' = dom nv \<union> set (filter (\<lambda>w. next_expr (h ! w) \<noteq> None) ws)"
proof (induction ws arbitrary: nv ctx)
  case Nil
  then show ?case by simp
next
  case (Cons w ws)
  from Cons.prems have len: "w < length h"
    by (auto simp: bindE_eq_Inr deref_eq_Inr)
  show ?case
  proof (cases "next_expr (h ! w)")
    case None
    with Cons.prems len have "eval_next_values rtl k h ws nv ctx = Inr (nv', ctx')"
      by (simp add: deref_def)
    from Cons.IH [OF this] None show ?thesis by simp
  next
    case (Some e)
    with Cons.prems len obtain v c1 where
      "eval_next_values rtl k h ws (nv(w \<mapsto> v)) c1 = Inr (nv', ctx')"
      by (auto simp: bindE_eq_Inr deref_def)
    from Cons.IH [OF this] have "dom nv' = insert w (dom nv) \<union> set (filter (\<lambda>w. next_expr (h ! w) \<noteq> None) ws)"
      by (simp only: dom_fun_upd option.simps if_False)
    with Some show ?thesis by auto
  qed
qed

lemma save_state_dom:
  "save_state h ws saved = Inr saved' \<Longrightarrow> dom saved' = dom saved \<union> set ws"
proof (induction ws arbitrary: saved)
  case Nil
  then show ?case by simp
next
  case (Cons w ws)
  from Cons.prems have "save_state h ws (saved(w \<mapsto> committed_value (h ! w))) = Inr saved'"
    by (auto simp: bindE_eq_Inr deref_eq_Inr)
  from Cons.IH [OF this] have "dom saved' = insert w (dom saved) \<union> set ws"
    by (simp only: dom_fun_upd option.simps if_False)
  then show ?case by auto
qed

text \<open>The key sets of the two hash maps, as lists: equations for evaluation.\<close>

lemma cycle_code [code]:
  "cycle enum rtl k all_wires st =
     (case st of (hist, h) \<Rightarrow>
        bindE (record_values rtl k h all_wires hist empty_ctx) (\<lambda>(hist1, c1).
          bindE (eval_next_values rtl k h all_wires Map.empty c1) (\<lambda>(next_values, c2).
            bindE (write_committed next_values
                     (enum (set (filter (\<lambda>w. next_expr (h ! w) \<noteq> None) all_wires))) h) (\<lambda>h1.
              Inr (hist1, h1)))))"
proof -
  obtain hist h where st: "st = (hist, h)" by (cases st)
  show ?thesis
  proof (cases "record_values rtl k h all_wires hist empty_ctx")
    case (Inl e)
    then show ?thesis by (simp add: cycle_def st)
  next
    case (Inr p)
    obtain hist1 c1 where p: "p = (hist1, c1)" by (cases p)
    show ?thesis
    proof (cases "eval_next_values rtl k h all_wires Map.empty c1")
      case (Inl e)
      then show ?thesis using Inr by (simp add: cycle_def st p)
    next
      case (Inr q)
      obtain nv c2 where q: "q = (nv, c2)" by (cases q)
      from eval_next_values_dom [OF Inr [unfolded q]]
      have "dom nv = set (filter (\<lambda>w. next_expr (h ! w) \<noteq> None) all_wires)" by simp
      then show ?thesis
        using Inr \<open>record_values rtl k h all_wires hist empty_ctx = Inr p\<close>
        by (simp add: cycle_def st p q)
    qed
  qed
qed

lemma simulate_code [code]:
  "simulate enum rtl fuel h targets cycles restore_state =
     bindE (closure_from_targets enum fuel h targets) (\<lambda>wires.
       let all_wires = enum wires in
       bindE (if restore_state then save_state h all_wires Map.empty else Inr Map.empty) (\<lambda>saved.
         bindE (init_history h all_wires []) (\<lambda>hist0.
           bindE (run_cycles enum rtl fuel all_wires (nat cycles) (hist0, h)) (\<lambda>(hist, h1).
             bindE (if restore_state then write_committed saved (enum (set all_wires)) h1 else Inr h1)
               (\<lambda>h2. Inr (hist, h2))))))"
proof (cases restore_state)
  case False
  then show ?thesis by (simp add: simulate_def)
next
  case True
  show ?thesis
  proof (cases "closure_from_targets enum fuel h targets")
    case (Inl e)
    then show ?thesis by (simp add: simulate_def)
  next
    case (Inr S)
    show ?thesis
    proof (cases "save_state h (enum S) Map.empty")
      case (Inl e)
      then show ?thesis using Inr True by (simp add: simulate_def)
    next
      case (Inr saved)
      from save_state_dom [OF this] have "dom saved = set (enum S)" by simp
      then show ?thesis
        using Inr True \<open>closure_from_targets enum fuel h targets = Inr S\<close>
        by (simp add: simulate_def)
    qed
  qed
qed

section \<open>Histories\<close>

lemma names_same_circuit:
  assumes "same_circuit h h1" "\<forall>w\<in>set ws. w < length h"
  shows "filter (\<lambda>w. name (h1 ! w) = k) ws = filter (\<lambda>w. name (h ! w) = k) ws"
  using same_circuit_fields(1) [OF assms(1)] assms(2) by (intro filter_cong) auto

lemma cycle_rel_history:
  assumes "cycle_rel h ws hist hist' h'" "sorted_wrt (<) (map fst hist)"
  shows "set (map fst hist') = set (map fst hist) \<union> (\<lambda>w. name (h ! w)) ` set ws"
    and "\<exists>ext. history_of hist' k = history_of hist k @ ext \<and>
               length ext = length (filter (\<lambda>w. name (h ! w) = k) ws)"
proof -
  from assms(1) obtain V where h1: "hist' = record_spec h V ws hist"
    unfolding cycle_rel_def by blast
  note r = record_spec_history [OF assms(2), of h V ws]
  show "set (map fst hist') = set (map fst hist) \<union> (\<lambda>w. name (h ! w)) ` set ws"
    unfolding h1 using r by blast
  have "history_of hist' k = history_of hist k @ map V (filter (\<lambda>w. name (h ! w) = k) ws)"
    unfolding h1 using r by blast
  then show "\<exists>ext. history_of hist' k = history_of hist k @ ext \<and>
               length ext = length (filter (\<lambda>w. name (h ! w) = k) ws)"
    by simp
qed

lemma run_rel_history:
  "run_rel ws n (hist, h) (hist', h') \<Longrightarrow> sorted_wrt (<) (map fst hist) \<Longrightarrow>
   (\<exists>ext. history_of hist' k = history_of hist k @ ext \<and>
          length ext = n * length (filter (\<lambda>w. name (h ! w) = k) ws)) \<and>
   set (map fst hist') \<subseteq> set (map fst hist) \<union> (\<lambda>w. name (h ! w)) ` set ws \<and>
   set (map fst hist) \<subseteq> set (map fst hist')"
proof (induction n arbitrary: hist h)
  case 0
  then show ?case by simp
next
  case (Suc n)
  from Suc.prems(1) obtain hist1 h1 where 1: "cycle_rel h ws hist hist1 h1"
    and 2: "run_rel ws n (hist1, h1) (hist', h')"
    by auto
  note c = cycle_rel_same_circuit [OF 1]
  note v = cycle_rel_valid [OF 1]
  note nm = names_same_circuit [OF c(1) v]
  have img: "(\<lambda>w. name (h1 ! w)) ` set ws = (\<lambda>w. name (h ! w)) ` set ws"
    using same_circuit_fields(1) [OF c(1)] v by (intro image_cong) auto
  from cycle_rel_history(1) [OF 1 Suc.prems(2)] cycle_rel_history(2) [OF 1 Suc.prems(2), of k]
  obtain e1 where
    k1: "set (map fst hist1) = set (map fst hist) \<union> (\<lambda>w. name (h ! w)) ` set ws" and
    e1: "history_of hist1 k = history_of hist k @ e1"
        "length e1 = length (filter (\<lambda>w. name (h ! w) = k) ws)"
    by blast
  from Suc.IH [OF 2 c(3) [OF Suc.prems(2)]] obtain e2 where
    e2: "history_of hist' k = history_of hist1 k @ e2"
        "length e2 = n * length (filter (\<lambda>w. name (h1 ! w) = k) ws)" and
    k2: "set (map fst hist') \<subseteq> set (map fst hist1) \<union> (\<lambda>w. name (h1 ! w)) ` set ws"
        "set (map fst hist1) \<subseteq> set (map fst hist')"
    by blast
  have "history_of hist' k = history_of hist k @ (e1 @ e2)" using e1 e2 by simp
  moreover have "length (e1 @ e2) = Suc n * length (filter (\<lambda>w. name (h ! w) = k) ws)"
    using e1 e2 unfolding nm by simp
  moreover have "set (map fst hist') \<subseteq> set (map fst hist) \<union> (\<lambda>w. name (h ! w)) ` set ws"
    using k1 k2 unfolding img by blast
  moreover have "set (map fst hist) \<subseteq> set (map fst hist')"
    using k1 k2 by blast
  ultimately show ?case by blast
qed

lemma history_of_entry:
  assumes "sorted_wrt (<) (map fst hist)" "(k, vs) \<in> set hist"
  shows "history_of hist k = vs"
proof -
  from assms(1) have "distinct (map fst hist)" by (simp add: strict_sorted_iff)
  from map_of_is_SomeI [OF this assms(2)] show ?thesis by (simp add: history_of_def)
qed

lemma length_filter_card:
  assumes "distinct ws"
  shows "length (filter P ws) = card {w \<in> set ws. P w}"
proof -
  have "distinct (filter P ws)" using assms by simp
  then have "length (filter P ws) = card (set (filter P ws))"
    by (rule distinct_card [symmetric])
  moreover have "set (filter P ws) = {w \<in> set ws. P w}" by auto
  ultimately show ?thesis by simp
qed

text \<open>The history that a successful call returns.\<close>

lemma simulate_history:
  assumes en: "enumerates enum"
    and sim: "simulate enum rtl fuel h ts cycles restore = Inr (hist, hfin)"
  shows "sorted_wrt (<) (map fst hist)"
    and "set (map fst hist) = (\<lambda>w. name (h ! w)) ` reach h (target_set ts)"
    and "length (history_of hist k) = nat cycles * card {w \<in> reach h (target_set ts). name (h ! w) = k}"
proof -
  let ?S = "reach h (target_set ts)"
  let ?ws = "enum ?S"
  from simulate_parts [OF en sim] obtain h1 where
    fin: "finite ?S" and
    run: "run_cycles enum rtl fuel ?ws (nat cycles) (init_spec h ?ws [], h) = Inr (hist, h1)"
    by blast
  have e: "set ?ws = ?S" "distinct ?ws" using en fin by (simp_all add: enumerates_def)
  note i = init_spec_history [of "[]" h ?ws, simplified]
  from i have s0: "sorted_wrt (<) (map fst (init_spec h ?ws []))" by simp
  note rr = run_cycles_sound [OF en run]
  from run_rel_same_circuit [OF rr] s0 show "sorted_wrt (<) (map fst hist)" by simp
  note rh = run_rel_history [OF rr s0]
  from rh [of k] i e show "set (map fst hist) = (\<lambda>w. name (h ! w)) ` ?S" by auto
  from rh [of k] obtain ext where
    "history_of hist k = history_of (init_spec h ?ws []) k @ ext"
    "length ext = nat cycles * length (filter (\<lambda>w. name (h ! w) = k) ?ws)" by blast
  moreover have "history_of (init_spec h ?ws []) k = []"
    using i by (simp add: history_of_def)
  ultimately show "length (history_of hist k) = nat cycles * card {w \<in> ?S. name (h ! w) = k}"
    using length_filter_card [OF e(2), of "\<lambda>w. name (h ! w) = k"] e(1) by simp
qed





section \<open>Single nodes\<close>

text \<open>A wire whose combinational definition is a reference to itself has no value:
  its evaluation uses up any fuel.\<close>

lemma self_loop_diverges:
  assumes "w < length h" and "comb_expr (h ! w) = wireRef (Some w)"
  shows "comb_cache ctx w = None \<Longrightarrow>
   wire_value rtl k h (Some w) ctx = Inl OutOfFuel \<and>
   eval_node rtl k h (wireRef (Some w)) ctx = Inl OutOfFuel"
proof (induction k arbitrary: ctx rule: less_induct)
  case (less k)
  show ?case
  proof (cases k)
    case 0
    then show ?thesis by simp
  next
    case (Suc j)
    note kj = this
    have w: "wire_value rtl j h (Some w) c0 = Inl OutOfFuel" if "comb_cache c0 w = None" for c0
      using less.IH [of j c0] that kj by simp
    have e: "eval_node rtl j h (wireRef (Some w)) c0 = Inl OutOfFuel" if "comb_cache c0 w = None" for c0
      using less.IH [of j c0] that kj by simp
    have "eval_node rtl (Suc j) h (wireRef (Some w)) ctx = Inl OutOfFuel"
      using w [OF less.prems] by (simp add: wireRef_def)
    moreover have "wire_value rtl (Suc j) h (Some w) ctx = Inl OutOfFuel"
      using e [of "ctx\<lparr>evaluated := evaluated ctx @ [w]\<rparr>"] less.prems assms
      by (simp add: wireRef_def)
    ultimately show ?thesis using kj by simp
  qed
qed

text \<open>The closure holds every wire that a visited node of a member's definitions
  refers to.\<close>

lemma refs_walked: "m \<in> walked e \<Longrightarrow> refs m \<subseteq> refs e"
proof (induction e rule: refs.induct)
  case (1 o1 v w x y z)
  note IH = "1.IH" and prems = "1.prems"
  show ?case
  proof (cases "m = ExprNode o1 v w x y z")
    case True
    then show ?thesis by simp
  next
    case False
    with prems have nw: "\<not> (o1 = WireRef \<and> w \<noteq> None)"
      and m: "m \<in> (case x of None \<Rightarrow> {} | Some n \<Rightarrow> walked n)
           \<union> (case y of None \<Rightarrow> {} | Some n \<Rightarrow> walked n)
           \<union> (case z of None \<Rightarrow> {} | Some n \<Rightarrow> walked n)"
      by (auto split: if_splits)
    from m consider
        n where "x = Some n" "m \<in> walked n"
      | n where "y = Some n" "m \<in> walked n"
      | n where "z = Some n" "m \<in> walked n"
      by (auto split: option.splits)
    then show ?thesis
    proof cases
      case 1
      with IH(1) [OF nw 1(1) 1(2)] nw show ?thesis by auto
    next
      case 2
      with IH(2) [OF nw 2(1) 2(2)] nw show ?thesis by auto
    next
      case 3
      with IH(3) [OF nw 3(1) 3(2)] nw show ?thesis by auto
    qed
  qed
qed

lemma refs_Select:
  "op n = Select \<Longrightarrow> refs n = refs_of (a n) \<union> refs_of (b n) \<union> refs_of (c n)"
  by (cases n) (simp add: refs_of_def)

lemma walked_refs_reach:
  assumes "s \<in> reach h R" "s < length h"
    and "n \<in> walked_of (comb_expr (h ! s)) \<union> walked_of (next_expr (h ! s))"
  shows "refs n \<subseteq> reach h R"
proof -
  from assms(3) have "refs n \<subseteq> wire_refs h s"
    using assms(2) refs_walked [of n]
    by (auto simp: walked_of_def wire_refs_def refs_of_def split: option.splits)
  with assms(1) show ?thesis by (auto intro: reach.step)
qed

text \<open>A run of at least one cycle that returns has evaluated every wire of the closure
  in the state it started from.\<close>

lemma simulate_evaluates_closure:
  assumes "enumerates enum"
    and "simulate enum rtl fuel h targets cycles restore = Inr (hist, hfin)"
    and "0 < cycles" and "w \<in> reach h (target_set targets)"
  shows "\<exists>v. wire_val h w v \<and> (\<exists>k ctx. wire_value rtl k h (Some w) empty_ctx = Inr (v, ctx))"
proof -
  let ?S = "reach h (target_set targets)"
  let ?ws = "enum ?S"
  from simulate_parts [OF assms(1,2)] obtain h1 where
    fin: "finite ?S" and
    run: "run_cycles enum rtl fuel ?ws (nat cycles) (init_spec h ?ws [], h) = Inr (hist, h1)"
    by blast
  have e: "set ?ws = ?S" using assms(1) fin by (simp add: enumerates_def)
  from assms(3) obtain m where "nat cycles = Suc m" by (cases "nat cycles") auto
  with run obtain hist1 h2 where
    c: "cycle enum rtl fuel ?ws (init_spec h ?ws [], h) = Inr (hist1, h2)"
    by (auto simp: bindE_eq_Inr)
  from cycle_sound [OF assms(1) c] obtain V where
    "\<forall>x\<in>set ?ws. wire_val h x (V x)"
    unfolding cycle_rel_def by blast
  with assms(4) e have v: "wire_val h w (V w)" by blast
  then obtain k where "naive_wire k h (Some w) = Inr (V w)" unfolding wire_val_def by blast
  with memo_complete [of h k rtl] cache_ok_empty [of h]
  have "\<exists>ctx. wire_value rtl k h (Some w) empty_ctx = Inr (V w, ctx)" by blast
  with v show ?thesis by blast
qed

text \<open>
  C3, as the code has it. For a select node \<open>n\<close>: \<^verbatim>\<open>eval_node\<close> evaluates the condition,
  then the one operand that the condition's truthiness picks, in the context the
  condition left; the other operand is not evaluated. So when the condition and the
  chosen operand return, on some fuel each, the evaluation of the node returns the
  chosen operand's value and context on every fuel that is at least both, whatever
  the other operand is: it may be null, fail or never return, and two select nodes
  that differ in it alone evaluate alike. A run of \<^verbatim>\<open>simulate\<close> asks
  for more. The closure follows the references of all three operands of a select that
  \<^verbatim>\<open>gather_from_expr\<close> visits in a definition of a closure wire, and a run of at least one
  cycle that returns has evaluated every wire of the closure: each has a value in the
  starting state, and \<^verbatim>\<open>wire_value\<close> returns it from the fresh context.
\<close>

theorem select_evaluates_chosen_branch_only:
  assumes "op n = Select"
  shows "eval_node rtl (Suc k) h (Some n) ctx
           = bindE (eval_node rtl k h (a n) ctx)
               (\<lambda>(x, c1). if truthy x \<noteq> 0 then eval_node rtl k h (b n) c1
                           else eval_node rtl k h (c n) c1)
       \<and> (eval_node rtl k1 h (a n) ctx = Inr (x, c1)
            \<and> eval_node rtl k2 h (if truthy x \<noteq> 0 then b n else c n) c1 = Inr (r, c2)
          \<longrightarrow> (\<forall>j. max k1 k2 \<le> j \<longrightarrow> eval_node rtl (Suc j) h (Some n) ctx = Inr (r, c2)))
       \<and> (s \<in> reach h (target_set targets) \<and> s < length h
            \<and> n \<in> walked_of (comb_expr (h ! s)) \<union> walked_of (next_expr (h ! s))
          \<longrightarrow> refs_of (a n) \<union> refs_of (b n) \<union> refs_of (c n) \<subseteq> reach h (target_set targets))
       \<and> (enumerates enum \<and> simulate enum rtl fuel h targets cycles restore = Inr (hist, hfin)
            \<and> 0 < cycles
          \<longrightarrow> (\<forall>w \<in> reach h (target_set targets).
                 \<exists>v. wire_val h w v \<and> (\<exists>j ctx'. wire_value rtl j h (Some w) empty_ctx = Inr (v, ctx'))))
       \<and> (op n' = Select \<and> a n' = a n \<and> eval_node rtl k h (a n) ctx = Inr (x, c1)
            \<and> (if truthy x \<noteq> 0 then b n' = b n else c n' = c n)
          \<longrightarrow> eval_node rtl (Suc k) h (Some n') ctx = eval_node rtl (Suc k) h (Some n) ctx)"
proof (intro conjI impI allI ballI)
  show "eval_node rtl (Suc k) h (Some n) ctx
           = bindE (eval_node rtl k h (a n) ctx)
               (\<lambda>(x, c1). if truthy x \<noteq> 0 then eval_node rtl k h (b n) c1
                           else eval_node rtl k h (c n) c1)"
    using assms by simp
next
  fix j
  assume ev: "eval_node rtl k1 h (a n) ctx = Inr (x, c1)
            \<and> eval_node rtl k2 h (if truthy x \<noteq> 0 then b n else c n) c1 = Inr (r, c2)"
    and j: "max k1 k2 \<le> j"
  from ev j eval_node_mono [of k1 j rtl h "a n" ctx]
  have 1: "eval_node rtl j h (a n) ctx = Inr (x, c1)" by (simp add: res_le_def)
  from ev j eval_node_mono [of k2 j rtl h "if truthy x \<noteq> 0 then b n else c n" c1]
  have 2: "eval_node rtl j h (if truthy x \<noteq> 0 then b n else c n) c1 = Inr (r, c2)"
    by (simp add: res_le_def)
  from assms 1 2 show "eval_node rtl (Suc j) h (Some n) ctx = Inr (r, c2)"
    by (simp split: if_splits)
next
  assume "s \<in> reach h (target_set targets) \<and> s < length h
            \<and> n \<in> walked_of (comb_expr (h ! s)) \<union> walked_of (next_expr (h ! s))"
  then have "refs n \<subseteq> reach h (target_set targets)"
    using walked_refs_reach [of s h "target_set targets" n] by blast
  then show "refs_of (a n) \<union> refs_of (b n) \<union> refs_of (c n) \<subseteq> reach h (target_set targets)"
    using refs_Select [OF assms] by simp
next
  fix w
  assume "enumerates enum \<and> simulate enum rtl fuel h targets cycles restore = Inr (hist, hfin)
            \<and> 0 < cycles"
    and "w \<in> reach h (target_set targets)"
  then show "\<exists>v. wire_val h w v \<and> (\<exists>j ctx'. wire_value rtl j h (Some w) empty_ctx = Inr (v, ctx'))"
    using simulate_evaluates_closure [of enum rtl fuel h targets cycles restore hist hfin w] by blast
next
  assume e: "op n' = Select \<and> a n' = a n \<and> eval_node rtl k h (a n) ctx = Inr (x, c1)
            \<and> (if truthy x \<noteq> 0 then b n' = b n else c n' = c n)"
  show "eval_node rtl (Suc k) h (Some n') ctx = eval_node rtl (Suc k) h (Some n) ctx"
  proof (cases "truthy x \<noteq> 0")
    case True
    with e assms show ?thesis by simp
  next
    case False
    with e assms show ?thesis by simp
  qed
qed


theorem select_evaluates_chosen_branch_only_witness:
  "eval_node ltr 2 guard_store (make_select (Expr 1) (Expr 7) (wireRef (Some 0))) empty_ctx
     = Inr (7, empty_ctx)
   \<and> (\<forall>k. eval_node ltr k guard_store (wireRef (Some 0)) empty_ctx = Inl OutOfFuel)
   \<and> eval_node ltr 2 guard_store (make_select (Expr 1) (Expr 7) None) empty_ctx
     = eval_node ltr 2 guard_store (make_select (Expr 1) (Expr 7) (wireRef (Some 0))) empty_ctx
   \<and> 0 \<in> reach guard_store (target_set [Some 1])
   \<and> (\<forall>fuel res. simulate enum_sorted ltr fuel guard_store [Some 1] 1 False \<noteq> Inr res)
   \<and> simulate enum_sorted ltr 10 demo_store [Some 4] 1 True
       = Inr ([(''a'', [1]), (''b'', [2]), (''maxab'', [2])], demo_store)
   \<and> 0 \<in> reach demo_store (target_set [Some 4])
   \<and> (\<exists>v. wire_val demo_store 0 v
         \<and> (\<exists>j ctx'. wire_value ltr j demo_store (Some 0) empty_ctx = Inr (v, ctx')))"
proof -
  let ?n = "ExprNode Select 0 None (Expr 1) (Expr 7) (wireRef (Some 0))"
  let ?T = "target_set [Some 1]"
  have sel: "op ?n = Select" by simp
  note t = select_evaluates_chosen_branch_only [OF sel]
  \<comment> \<open>the node returns although its third operand never does\<close>
  have 1: "eval_node ltr 1 guard_store (a ?n) empty_ctx = Inr (1, empty_ctx)"
    by (simp add: Expr_def)
  have 2: "eval_node ltr 1 guard_store (if truthy 1 \<noteq> 0 then b ?n else c ?n) empty_ctx
           = Inr (7, empty_ctx)"
    by (simp add: Expr_def truthy_def)
  from 1 2 have 12: "eval_node ltr 1 guard_store (a ?n) empty_ctx = Inr (1, empty_ctx)
      \<and> eval_node ltr 1 guard_store (if truthy 1 \<noteq> 0 then b ?n else c ?n) empty_ctx
           = Inr (7, empty_ctx)" by (rule conjI)
  from t [THEN conjunct2, THEN conjunct1, THEN mp, OF 12, THEN spec, of 1]
  have "max 1 1 \<le> (1 :: nat) \<longrightarrow>
          eval_node ltr (Suc 1) guard_store (Some ?n) empty_ctx = Inr (7, empty_ctx)" .
  moreover have "max 1 1 \<le> (1 :: nat)" by simp
  ultimately have "eval_node ltr (Suc 1) guard_store (Some ?n) empty_ctx = Inr (7, empty_ctx)"
    by (rule mp)
  then have A: "eval_node ltr 2 guard_store (make_select (Expr 1) (Expr 7) (wireRef (Some 0))) empty_ctx
     = Inr (7, empty_ctx)"
    by (simp only: make_select_def numeral_2_eq_2 One_nat_def)
  have l: "0 < length guard_store" "comb_expr (guard_store ! 0) = wireRef (Some 0)"
    by (simp_all add: guard_store_def assign_comb_def new_wire_def)
  have e0: "comb_cache empty_ctx 0 = None" by (simp add: empty_ctx_def)
  have B: "\<forall>k. eval_node ltr k guard_store (wireRef (Some 0)) empty_ctx = Inl OutOfFuel"
    using self_loop_diverges [OF l e0] by blast
  \<comment> \<open>the third operand does not matter\<close>
  let ?n' = "ExprNode Select 0 None (Expr 1) (Expr 7) None"
  have i: "op ?n' = Select \<and> a ?n' = a ?n
      \<and> eval_node ltr 1 guard_store (a ?n) empty_ctx = Inr (1, empty_ctx)
      \<and> (if truthy 1 \<noteq> 0 then b ?n' = b ?n else c ?n' = c ?n)"
    using 1 by (simp add: truthy_def)
  from t [THEN conjunct2, THEN conjunct2, THEN conjunct2, THEN conjunct2, THEN mp, OF i]
  have "eval_node ltr (Suc 1) guard_store (Some ?n') empty_ctx
        = eval_node ltr (Suc 1) guard_store (Some ?n) empty_ctx" .
  then have I: "eval_node ltr 2 guard_store (make_select (Expr 1) (Expr 7) None) empty_ctx
     = eval_node ltr 2 guard_store (make_select (Expr 1) (Expr 7) (wireRef (Some 0))) empty_ctx"
    by (simp only: make_select_def numeral_2_eq_2 One_nat_def)
  \<comment> \<open>the closure holds the wire of the third operand\<close>
  have s1: "1 \<in> reach guard_store ?T" by (rule reach.base) (simp add: target_set_def)
  have w1: "?n \<in> walked_of (comb_expr (guard_store ! 1)) \<union> walked_of (next_expr (guard_store ! 1))"
    by (simp add: guard_store_def assign_comb_def new_wire_def make_select_def walked_of_def)
  have l1: "1 < length guard_store" by (simp add: guard_store_def)
  from t [THEN conjunct2, THEN conjunct2, THEN conjunct1, of 1 guard_store "[Some 1]"] s1 l1 w1
  have "refs_of (a ?n) \<union> refs_of (b ?n) \<union> refs_of (c ?n) \<subseteq> reach guard_store ?T"
    by blast
  then have C: "0 \<in> reach guard_store ?T"
    by (simp add: refs_of_def wireRef_def)
  \<comment> \<open>so no run returns\<close>
  have D: "simulate enum_sorted ltr fuel guard_store [Some 1] 1 False \<noteq> Inr res" for fuel res
  proof
    assume r: "simulate enum_sorted ltr fuel guard_store [Some 1] 1 False = Inr res"
    obtain hist hfin where "res = (hist, hfin)" by (cases res)
    with r have "simulate enum_sorted ltr fuel guard_store [Some 1] 1 False = Inr (hist, hfin)"
      by simp
    with t [THEN conjunct2, THEN conjunct2, THEN conjunct2, THEN conjunct1,
        of enum_sorted ltr fuel guard_store "[Some 1]" 1 False hist hfin] enumerates_sorted C
    obtain v j ctx' where "wire_value ltr j guard_store (Some 0) empty_ctx = Inr (v, ctx')"
      by force
    with self_loop_diverges [OF l e0, of ltr j] show False by simp
  qed
  \<comment> \<open>a run that returns\<close>
  let ?m = "ExprNode Select 0 None (make_binary Gt (wireRef (Some 0)) (wireRef (Some 1)))
              (wireRef (Some 0)) (wireRef (Some 1))"
  have selm: "op ?m = Select" by simp
  note u = select_evaluates_chosen_branch_only [OF selm]
  have E: "simulate enum_sorted ltr 10 demo_store [Some 4] 1 True
       = Inr ([(''a'', [1]), (''b'', [2]), (''maxab'', [2])], demo_store)"
    by code_simp
  have s4: "4 \<in> reach demo_store (target_set [Some 4])"
    by (rule reach.base) (simp add: target_set_def)
  have w4: "?m \<in> walked_of (comb_expr (demo_store ! 4)) \<union> walked_of (next_expr (demo_store ! 4))"
    by (simp add: demo_store_def assign_comb_def new_wire_def make_select_def walked_of_def)
  have l4: "4 < length demo_store" by (simp add: demo_store_def)
  from u [THEN conjunct2, THEN conjunct2, THEN conjunct1, of 4 demo_store "[Some 4]"] s4 l4 w4
  have "refs_of (a ?m) \<union> refs_of (b ?m) \<union> refs_of (c ?m) \<subseteq> reach demo_store (target_set [Some 4])"
    by blast
  then have F: "0 \<in> reach demo_store (target_set [Some 4])"
    by (simp add: refs_of_def wireRef_def)
  from u [THEN conjunct2, THEN conjunct2, THEN conjunct2, THEN conjunct1,
      of enum_sorted ltr 10 demo_store "[Some 4]" 1 True _ demo_store] enumerates_sorted E F
  have G: "\<exists>v. wire_val demo_store 0 v
         \<and> (\<exists>j ctx'. wire_value ltr j demo_store (Some 0) empty_ctx = Inr (v, ctx'))"
    by force
  from A B I C D E F G show ?thesis by blast
qed

text \<open>The claim as stated fails for a run: in \<^verbatim>\<open>w = w; r = If(1, 7, w);\<close> the condition
  and the chosen operand of the select evaluate and the node returns 7, but the wire
  \<open>w\<close> of the other operand is in the closure of \<open>r\<close>, so the first cycle evaluates it and
  the run does not return. Here it is on the fuels 8 and 64; every fuel is in the
  witness above.\<close>

theorem select_run_counterexample:
  "comb_expr (guard_store ! 1) = make_select (Expr 1) (Expr 7) (wireRef (Some 0))
   \<and> eval_node ltr 1 guard_store (Expr 1) empty_ctx = Inr (1, empty_ctx)
   \<and> truthy 1 = 1
   \<and> eval_node ltr 1 guard_store (Expr 7) empty_ctx = Inr (7, empty_ctx)
   \<and> eval_node ltr 2 guard_store (make_select (Expr 1) (Expr 7) (wireRef (Some 0))) empty_ctx
       = Inr (7, empty_ctx)
   \<and> closure_from_targets enum_sorted 8 guard_store [Some 1] = Inr {0, 1}
   \<and> simulate enum_sorted ltr 8 guard_store [Some 1] 1 False = Inl OutOfFuel
   \<and> simulate enum_sorted ltr 64 guard_store [Some 1] 1 False = Inl OutOfFuel"
proof -
  have 1: "comb_expr (guard_store ! 1) = make_select (Expr 1) (Expr 7) (wireRef (Some 0))"
    by (simp add: guard_store_def assign_comb_def new_wire_def)
  have 2: "eval_node ltr 1 guard_store (Expr 1) empty_ctx = Inr (1, empty_ctx)"
    "eval_node ltr 1 guard_store (Expr 7) empty_ctx = Inr (7, empty_ctx)"
    by (simp_all add: Expr_def)
  have 3: "truthy 1 = 1" by (simp add: truthy_def)
  have 4: "eval_node ltr 2 guard_store (make_select (Expr 1) (Expr 7) (wireRef (Some 0))) empty_ctx
       = Inr (7, empty_ctx)"
    by (simp add: eval_nat_numeral make_select_def Expr_def truthy_def)
  have 5: "closure_from_targets enum_sorted 8 guard_store [Some 1] = Inr {0, 1}"
    by code_simp
  have 6: "simulate enum_sorted ltr 8 guard_store [Some 1] 1 False = Inl OutOfFuel"
    by code_simp
  have 7: "simulate enum_sorted ltr 64 guard_store [Some 1] 1 False = Inl OutOfFuel"
    by code_simp
  from 1 2 3 4 5 6 7 show ?thesis by blast
qed


text \<open>
  C4. A division or modulo node whose divisor evaluates to 0 returns 0, in the context
  the divisor left. The dividend is not evaluated, so the result is the same for every
  dividend, also one whose own evaluation would fail.
\<close>

theorem div_mod_by_zero_is_zero:
  assumes "op n = Div \<or> op n = Mod"
    and "eval_node rtl k h (b n) ctx = Inr (0, c1)"
  shows "eval_node rtl (Suc k) h (Some n) ctx = Inr (0, c1)"
  using assms by auto

theorem div_mod_by_zero_is_zero_witness:
  "eval_node ltr (Suc 1) [] (make_binary Div (Expr 5) (Expr 0)) empty_ctx = Inr (0, empty_ctx)
   \<and> eval_node ltr (Suc 1) [] (make_binary Mod None (Expr 0)) empty_ctx = Inr (0, empty_ctx)"
proof -
  let ?d = "ExprNode Div 0 None (Expr 5) (Expr 0) None"
  let ?m = "ExprNode Mod 0 None None (Expr 0) None"
  have d: "eval_node ltr 1 [] (b ?d) empty_ctx = Inr (0, empty_ctx)"
    by (simp add: Expr_def)
  have m: "eval_node ltr 1 [] (b ?m) empty_ctx = Inr (0, empty_ctx)"
    by (simp add: Expr_def)
  have "eval_node ltr (Suc 1) [] (Some ?d) empty_ctx = Inr (0, empty_ctx)"
    by (rule div_mod_by_zero_is_zero [OF _ d]) simp
  moreover have "eval_node ltr (Suc 1) [] (Some ?m) empty_ctx = Inr (0, empty_ctx)"
    by (rule div_mod_by_zero_is_zero [OF _ m]) simp
  ultimately show ?thesis by (simp add: make_binary_def)
qed

text \<open>
  C8. An add, sub or mul node whose operands evaluate to \<open>x\<close> and \<open>y\<close> returns the
  64-bit value whose signed reading is the exact integer result reduced to the signed
  64-bit range: it wraps modulo \<open>2^64\<close>, with no error and no clamping. The witness adds
  1 to the largest signed value and gets the smallest.
\<close>

theorem arith_wraps_modulo_2_64:
  assumes "op n = Add \<or> op n = Sub \<or> op n = Mul"
    and "in_order (rtl (op n)) (\<lambda>c. eval_node rtl k h (a n) c)
           (\<lambda>c. eval_node rtl k h (b n) c) ctx = Inr ((x, y), c2)"
  shows "\<exists>r. eval_node rtl (Suc k) h (Some n) ctx = Inr (r, c2)
           \<and> sint r = signed_take_bit 63 (exact_arith (op n) (sint x) (sint y))
           \<and> uint r = exact_arith (op n) (sint x) (sint y) mod 2 ^ 64"
proof -
  have u: "uint (word_of_int i :: i64) = i mod 2 ^ 64" for i
    by (simp add: uint_word_of_int take_bit_eq_mod)
  have "uint (x + y) = (sint x + sint y) mod 2 ^ 64"
    using u [of "sint x + sint y"] by simp
  moreover have "uint (x - y) = (sint x - sint y) mod 2 ^ 64"
    using u [of "sint x - sint y"] by simp
  moreover have "uint (x * y) = (sint x * sint y) mod 2 ^ 64"
    using u [of "sint x * sint y"] by simp
  ultimately show ?thesis
    using assms by (auto simp: exact_arith_def sint_word_ariths)
qed

theorem arith_wraps_modulo_2_64_witness:
  "eval_node ltr (Suc 1) [] (make_binary Add (Expr 9223372036854775807) (Expr 1)) empty_ctx
     = Inr (int64_min, empty_ctx)
   \<and> sint (9223372036854775807 :: i64) = 2 ^ 63 - 1 \<and> sint int64_min = - (2 ^ 63)"
proof -
  let ?n = "ExprNode Add 0 None (Expr 9223372036854775807) (Expr 1) None"
  have o: "op ?n = Add \<or> op ?n = Sub \<or> op ?n = Mul" by simp
  have io: "in_order (ltr (op ?n)) (\<lambda>c. eval_node ltr 1 [] (a ?n) c)
           (\<lambda>c. eval_node ltr 1 [] (b ?n) c) empty_ctx = Inr ((9223372036854775807, 1), empty_ctx)"
    by (simp add: in_order_def ltr_def Expr_def)
  from arith_wraps_modulo_2_64 [OF o io]
  obtain r where r: "eval_node ltr (Suc 1) [] (Some ?n) empty_ctx = Inr (r, empty_ctx)"
    and s: "sint r = signed_take_bit 63 (exact_arith (op ?n) (sint (9223372036854775807 :: i64)) (sint (1 :: i64)))"
    by blast
  have m: "sint int64_min = - (2 ^ 63)"
    by (simp add: int64_min_def)
  have "sint r = - (2 ^ 63)"
    using s by (simp add: exact_arith_def)
  then have "r = int64_min"
    using m by (intro signed_word_eqI [where ?'a = int]) simp
  then show ?thesis
    using r m by (simp add: make_binary_def)
qed

section \<open>Memoisation\<close>



section \<open>Dependency closure\<close>

text \<open>
  C6. Whatever traversal order the hash set has: when \<^verbatim>\<open>closure_from_targets\<close> returns
  a set, the set contains the non-null targets, is closed under the references of the
  combinational and registered definitions of its members, and is contained in every
  closed set that contains the targets; and computing the closure of that set again,
  under any traversal order, returns the same set. The computation does return when
  every wire reachable from the targets exists and the fuel is at least
  \<open>closure_fuel h\<close>.
\<close>

theorem closure_is_least_closed_set:
  assumes "enumerates enum"
  shows "(closure_from_targets enum fuel h targets = Inr S \<longrightarrow>
            target_set targets \<subseteq> S \<and> closed h S \<and>
            (\<forall>S'. target_set targets \<subseteq> S' \<and> closed h S' \<longrightarrow> S \<subseteq> S') \<and>
            (\<forall>enum' fuel'. enumerates enum' \<and> closure_fuel h \<le> fuel' \<longrightarrow>
               closure_from_targets enum' fuel' h (map Some (enum S)) = Inr S))
       \<and> ((\<forall>w\<in>reach h (target_set targets). w < length h) \<and> closure_fuel h \<le> fuel \<longrightarrow>
            (\<exists>S. closure_from_targets enum fuel h targets = Inr S))"
proof (intro conjI impI allI)
  assume c: "closure_from_targets enum fuel h targets = Inr S"
  note s = closure_from_targets_spec [OF assms c]
  show "target_set targets \<subseteq> S" unfolding s(1) by (blast intro: reach.base)
  show cl: "closed h S" unfolding s(1) by (rule reach_closed)
  show "S \<subseteq> S'" if "target_set targets \<subseteq> S' \<and> closed h S'" for S'
    unfolding s(1) using that by (blast intro: reach_least [THEN subsetD])
  show "closure_from_targets enum' fuel' h (map Some (enum S)) = Inr S"
    if "enumerates enum' \<and> closure_fuel h \<le> fuel'" for enum' fuel'
  proof -
    have t: "target_set (map Some (enum S)) = S" by (rule target_set_enum [OF assms s(3)])
    have "reach h S = S" by (rule reach_closed_eq [OF cl])
    with closure_from_targets_total [of enum' h "map Some (enum S)" fuel'] that t s(2)
    show ?thesis by simp
  qed
next
  assume "(\<forall>w\<in>reach h (target_set targets). w < length h) \<and> closure_fuel h \<le> fuel"
  with closure_from_targets_total [OF assms, of h targets fuel]
  show "\<exists>S. closure_from_targets enum fuel h targets = Inr S" by blast
qed

theorem closure_is_least_closed_set_witness:
  "enumerates enum_sorted
   \<and> closure_from_targets enum_sorted 6 demo_store [Some 3] = Inr {0, 1, 2, 3}
   \<and> target_set [Some 3] \<subseteq> {0, 1, 2, 3} \<and> closed demo_store {0, 1, 2, 3}
   \<and> closure_from_targets enum_rev (closure_fuel demo_store) demo_store
         (map Some (enum_sorted {0, 1, 2, 3})) = Inr {0, 1, 2, 3}
   \<and> (\<exists>S. closure_from_targets enum_sorted (closure_fuel demo_store) demo_store [Some 3] = Inr S)"
proof -
  have c: "closure_from_targets enum_sorted 6 demo_store [Some 3] = Inr {0, 1, 2, 3}"
    by code_simp
  have "reach demo_store (target_set [Some 3]) = {0, 1, 2, 3}"
    using closure_from_targets_spec(1) [OF enumerates_sorted c] by simp
  moreover have "length demo_store = 5"
    by (simp add: demo_store_def)
  ultimately have v: "\<forall>w\<in>reach demo_store (target_set [Some 3]). w < length demo_store"
    by simp
  note t = closure_is_least_closed_set [OF enumerates_sorted]
  from t [of 6 demo_store "[Some 3]" "{0, 1, 2, 3}"] c enumerates_rev
  have "target_set [Some 3] \<subseteq> {0, 1, 2, 3}" "closed demo_store {0, 1, 2, 3}"
    "closure_from_targets enum_rev (closure_fuel demo_store) demo_store
       (map Some (enum_sorted {0, 1, 2, 3})) = Inr {0, 1, 2, 3}"
    by blast+
  moreover from t [of "closure_fuel demo_store" demo_store "[Some 3]"] v
  have "\<exists>S. closure_from_targets enum_sorted (closure_fuel demo_store) demo_store [Some 3] = Inr S"
    by blast
  ultimately show ?thesis using c enumerates_sorted by blast
qed

section \<open>Restoring the state\<close>

text \<open>
  C2. When \<^verbatim>\<open>simulate\<close> is called with \<^verbatim>\<open>restore_state = true\<close> and returns, the store
  it leaves is the store it was called with: in particular every wire of the dependency
  closure has the committed value it had before the call. The witness runs the
  accumulator of \<^verbatim>\<open>main.cpp\<close> for 6 cycles: without restoring its committed value ends
  at 18, with restoring the store is unchanged.
\<close>

theorem restore_state_leaves_store:
  assumes "enumerates enum"
    and "simulate enum rtl fuel h targets cycles True = Inr (hist, h')"
  shows "h' = h \<and>
         (\<forall>S. closure_from_targets enum fuel h targets = Inr S \<longrightarrow>
              (\<forall>w\<in>S. committed_value (h' ! w) = committed_value (h ! w)))"
proof -
  from simulate_parts [OF assms] have "h' = h" by auto
  then show ?thesis by simp
qed

theorem restore_state_leaves_store_witness:
  "enumerates enum_sorted
   \<and> simulate enum_sorted ltr 10 demo_store [Some 3] 6 True
       = Inr ([(''a'', [1, 1, 1, 1, 1, 1]), (''acc'', [0, 3, 6, 9, 12, 15]),
               (''b'', [2, 2, 2, 2, 2, 2]), (''sum'', [3, 3, 3, 3, 3, 3])], demo_store)
   \<and> map_sum id (\<lambda>(hist, s). map committed_value s)
         (simulate enum_sorted ltr 10 demo_store [Some 3] 6 False) = Inr [0, 0, 0, 18, 0]
   \<and> map committed_value demo_store = [0, 0, 0, 0, 0]"
proof -
  let ?H = "[(''a'', [1, 1, 1, 1, 1, 1]), (''acc'', [0, 3, 6, 9, 12, 15]),
             (''b'', [2, 2, 2, 2, 2, 2]), (''sum'', [3, 3, 3, 3, 3, 3 :: i64])]"
  have "map_sum id fst (simulate enum_sorted ltr 10 demo_store [Some 3] 6 True) = Inr ?H"
    by code_simp
  then obtain h' where s: "simulate enum_sorted ltr 10 demo_store [Some 3] 6 True = Inr (?H, h')"
    by (cases "simulate enum_sorted ltr 10 demo_store [Some 3] 6 True") auto
  from restore_state_leaves_store [OF enumerates_sorted s] have "h' = demo_store" by simp
  with s have 1: "simulate enum_sorted ltr 10 demo_store [Some 3] 6 True = Inr (?H, demo_store)"
    by simp
  have 2: "map_sum id (\<lambda>(hist, s). map committed_value s)
         (simulate enum_sorted ltr 10 demo_store [Some 3] 6 False) = Inr [0, 0, 0, 18, 0]"
    by code_simp
  have 3: "map committed_value demo_store = [0, 0, 0, 0, 0]"
    by code_simp
  from 1 2 3 enumerates_sorted show ?thesis by blast
qed

section \<open>Traversal order\<close>

text \<open>
  C9. Take two traversal orders of the hash containers, and two choices of operand
  order. When the closure members carry distinct names and \<^verbatim>\<open>simulate\<close> returns a result
  under the first order, it returns the same result under the second, for every
  sufficient amount of fuel: the same histories and the same final store, with
  \<^verbatim>\<open>restore_state\<close> either way.
\<close>

theorem result_independent_of_traversal_order:
  assumes "enumerates enum1" "enumerates enum2"
    and "distinct_names h (reach h (target_set targets))"
    and "simulate enum1 rtl1 fuel h targets cycles restore = Inr r"
  shows "\<exists>K. \<forall>fuel'\<ge>K. simulate enum2 rtl2 fuel' h targets cycles restore = Inr r"
proof -
  let ?S = "reach h (target_set targets)"
  let ?ws1 = "enum1 ?S" and ?ws2 = "enum2 ?S"
  obtain hist hfin where r: "r = (hist, hfin)" by (cases r)
  from simulate_parts [OF assms(1) assms(4) [unfolded r]] obtain h1 where
    fin: "finite ?S" and valid: "\<forall>w\<in>?S. w < length h" and
    run: "run_cycles enum1 rtl1 fuel ?ws1 (nat cycles) (init_spec h ?ws1 [], h) = Inr (hist, h1)" and
    hf: "hfin = (if restore then h else h1)"
    by blast
  have e1: "set ?ws1 = ?S" "distinct ?ws1" and e2: "set ?ws2 = ?S" "distinct ?ws2"
    using assms(1,2) fin by (simp_all add: enumerates_def)
  have i: "init_spec h ?ws1 [] = init_spec h ?ws2 []"
    by (rule init_spec_order) (simp add: e1 e2)
  have s: "sorted_wrt (<) (map fst (init_spec h ?ws1 []))"
    using init_spec_history [of "[]" h ?ws1] by simp
  have inj: "inj_on (\<lambda>w. name (h ! w)) (set ?ws1)"
    using assms(3) unfolding distinct_names_def e1 .
  from run_cycles_sound [OF assms(1) run]
  have "run_rel ?ws1 (nat cycles) (init_spec h ?ws1 [], h) (hist, h1)" .
  from run_rel_order [OF e1(2) e2(2) _ this s inj]
  have "run_rel ?ws2 (nat cycles) (init_spec h ?ws2 [], h) (hist, h1)"
    unfolding i using e1 e2 by simp
  from run_cycles_complete [OF assms(2) this, of rtl2] obtain K where
    K: "\<forall>k\<ge>K. run_cycles enum2 rtl2 k ?ws2 (nat cycles) (init_spec h ?ws2 [], h) = Inr (hist, h1)"
    by blast
  have "simulate enum2 rtl2 fuel' h targets cycles restore = Inr r"
    if f: "fuel' \<ge> max K (closure_fuel h)" for fuel'
  proof -
    from f have "closure_fuel h \<le> fuel'" by simp
    from closure_from_targets_total [OF assms(2) valid this]
    have c: "closure_from_targets enum2 fuel' h targets = Inr ?S" .
    from K f have
      "run_cycles enum2 rtl2 fuel' ?ws2 (nat cycles) (init_spec h ?ws2 [], h) = Inr (hist, h1)"
      by simp
    from simulate_build [OF assms(2) c this, of restore] show ?thesis
      unfolding r hf .
  qed
  then show ?thesis by blast
qed

theorem result_independent_of_traversal_order_witness:
  "enumerates enum_sorted \<and> enumerates enum_rev
   \<and> distinct_names demo_store (reach demo_store (target_set [Some 3]))
   \<and> simulate enum_sorted ltr 10 demo_store [Some 3] 2 False
       = Inr ([(''a'', [1, 1]), (''acc'', [0, 3]), (''b'', [2, 2]), (''sum'', [3, 3])],
              demo_store[3 := (demo_store ! 3)\<lparr>committed_value := 6\<rparr>])
   \<and> (\<exists>K. \<forall>fuel'\<ge>K. simulate enum_rev right_to_left fuel' demo_store [Some 3] 2 False
       = Inr ([(''a'', [1, 1]), (''acc'', [0, 3]), (''b'', [2, 2]), (''sum'', [3, 3])],
              demo_store[3 := (demo_store ! 3)\<lparr>committed_value := 6\<rparr>]))
   \<and> enum_sorted {0, 1, 2, 3} \<noteq> enum_rev {0, 1, 2, 3}"
proof -
  have c: "closure_from_targets enum_sorted 6 demo_store [Some 3] = Inr {0, 1, 2, 3}"
    by code_simp
  have r: "reach demo_store (target_set [Some 3]) = {0, 1, 2, 3}"
    using closure_from_targets_spec(1) [OF enumerates_sorted c] by simp
  have d: "distinct_names demo_store (reach demo_store (target_set [Some 3]))"
    unfolding r by code_simp
  have s: "simulate enum_sorted ltr 10 demo_store [Some 3] 2 False
       = Inr ([(''a'', [1, 1]), (''acc'', [0, 3]), (''b'', [2, 2]), (''sum'', [3, 3])],
              demo_store[3 := (demo_store ! 3)\<lparr>committed_value := 6\<rparr>])"
    by code_simp
  have e: "enum_sorted {0, 1, 2, 3} \<noteq> enum_rev {0, 1, 2, 3}"
    by code_simp
  note t = result_independent_of_traversal_order [OF enumerates_sorted enumerates_rev d s,
      of right_to_left]
  from t d s e enumerates_sorted enumerates_rev show ?thesis by blast
qed

section \<open>Null targets\<close>

text \<open>
  C10. \<^verbatim>\<open>simulate\<close> over a target list returns what it returns over the same list with
  the null pointers removed; over a list of null pointers only it returns the empty
  mapping and leaves the store as it is.
\<close>

theorem null_targets_are_skipped:
  "simulate enum rtl fuel h targets cycles restore
     = simulate enum rtl fuel h (filter (\<lambda>t. t \<noteq> None) targets) cycles restore
   \<and> (enumerates enum \<longrightarrow> (\<forall>t\<in>set targets. t = None) \<longrightarrow>
        simulate enum rtl fuel h targets cycles restore = Inr ([], h))"
proof (intro conjI impI)
  show "simulate enum rtl fuel h targets cycles restore
     = simulate enum rtl fuel h (filter (\<lambda>t. t \<noteq> None) targets) cycles restore"
    by (simp only: simulate_def closure_from_targets_def insert_targets_filter)
next
  assume en: "enumerates enum" and n: "\<forall>t\<in>set targets. t = None"
  from en have e: "enum {} = []" by (rule enumerates_empty)
  from n have "target_set targets = {}" by (auto simp: target_set_def)
  then have "closure_from_targets enum fuel h targets = Inr {}" by (rule closure_empty)
  then show "simulate enum rtl fuel h targets cycles restore = Inr ([], h)"
    by (simp add: simulate_def e run_cycles_no_wires)
qed

theorem null_targets_are_skipped_witness:
  "simulate enum_sorted ltr 10 demo_store [None, Some 2, None] 3 True
     = simulate enum_sorted ltr 10 demo_store [Some 2] 3 True
   \<and> simulate enum_sorted ltr 10 demo_store [Some 2] 3 True
     = Inr ([(''a'', [1, 1, 1]), (''b'', [2, 2, 2]), (''sum'', [3, 3, 3])], demo_store)
   \<and> simulate enum_sorted ltr 0 demo_store [None, None] 3 True = Inr ([], demo_store)"
proof -
  note t = null_targets_are_skipped [of enum_sorted ltr _ demo_store _ 3 True]
  from t [of 10 "[None, Some 2, None]"]
  have 1: "simulate enum_sorted ltr 10 demo_store [None, Some 2, None] 3 True
     = simulate enum_sorted ltr 10 demo_store [Some 2] 3 True" by simp
  have 2: "simulate enum_sorted ltr 10 demo_store [Some 2] 3 True
     = Inr ([(''a'', [1, 1, 1]), (''b'', [2, 2, 2]), (''sum'', [3, 3, 3])], demo_store)"
    by code_simp
  have n: "\<forall>t\<in>set [None, None :: addr option]. t = None" by simp
  from t [of 0 "[None, None]"] enumerates_sorted n
  have 3: "simulate enum_sorted ltr 0 demo_store [None, None] 3 True = Inr ([], demo_store)" by blast
  from 1 2 3 show ?thesis by blast
qed

section \<open>The returned mapping\<close>

text \<open>
  C7, as the code has it. When \<^verbatim>\<open>simulate\<close> returns, the keys of the mapping are in
  strictly increasing lexicographic order and are exactly the names of the wires of
  the dependency closure. The entry of a name holds \<open>cycles\<close> values for each closure
  wire that carries the name, \<open>nat cycles\<close> times their number: exactly \<open>cycles\<close> values
  (for \<open>cycles \<ge> 0\<close>) when the closure wires carry distinct names. With no target
  other than null the mapping is empty.
\<close>

theorem history_keys_sorted_and_lengths:
  assumes "enumerates enum"
    and "simulate enum rtl fuel h targets cycles restore = Inr (hist, h')"
  shows "sorted_wrt (<) (map fst hist)
       \<and> set (map fst hist) = (\<lambda>w. name (h ! w)) ` reach h (target_set targets)
       \<and> (\<forall>k vs. (k, vs) \<in> set hist \<longrightarrow>
            length vs = nat cycles * card {w \<in> reach h (target_set targets). name (h ! w) = k})
       \<and> (distinct_names h (reach h (target_set targets)) \<longrightarrow>
            (\<forall>k vs. (k, vs) \<in> set hist \<longrightarrow> length vs = nat cycles))
       \<and> ((\<forall>t\<in>set targets. t = None) \<longrightarrow> hist = [])"
proof -
  let ?S = "reach h (target_set targets)"
  note sh = simulate_history [OF assms]
  have len: "length vs = nat cycles * card {w \<in> ?S. name (h ! w) = k}"
    if "(k, vs) \<in> set hist" for k vs
    using sh(3) [of k] history_of_entry [OF sh(1) that] by simp
  have one: "length vs = nat cycles"
    if d: "distinct_names h ?S" and kv: "(k, vs) \<in> set hist" for k vs
  proof -
    from kv have "k \<in> set (map fst hist)" by force
    with sh(2) obtain w where w: "w \<in> ?S" "name (h ! w) = k" by auto
    with d have "{u \<in> ?S. name (h ! u) = k} = {w}"
      unfolding distinct_names_def by (auto dest: inj_onD)
    with len [OF kv] show ?thesis by simp
  qed
  have emp: "hist = []" if "\<forall>t\<in>set targets. t = None"
  proof -
    from that have "target_set targets = {}" by (auto simp: target_set_def)
    then have "?S = {}" using reach_closed_eq [of h "{}"] by (simp add: closed_def)
    with sh(2) show ?thesis by simp
  qed
  from sh(1,2) len one emp show ?thesis by blast
qed

theorem history_keys_sorted_and_lengths_witness:
  "enumerates enum_rev
   \<and> simulate enum_rev ltr 10 demo_store [Some 3] 2 True
       = Inr ([(''a'', [1, 1]), (''acc'', [0, 3]), (''b'', [2, 2]), (''sum'', [3, 3])], demo_store)
   \<and> distinct_names demo_store (reach demo_store (target_set [Some 3]))
   \<and> sorted_wrt (<) [''a'', ''acc'', ''b'', ''sum'']
   \<and> (\<lambda>w. name (demo_store ! w)) ` reach demo_store (target_set [Some 3])
       = {''a'', ''acc'', ''b'', ''sum''}
   \<and> map (\<lambda>(k, vs). length vs)
         [(''a'', [1, 1]), (''acc'', [0, 3]), (''b'', [2, 2]), (''sum'', [3, 3 :: i64])]
       = [nat 2, nat 2, nat 2, nat 2]
   \<and> enum_rev {0, 1, 2, 3} = [3, 2, 1, 0]"
proof -
  let ?H = "[(''a'', [1, 1]), (''acc'', [0, 3]), (''b'', [2, 2]), (''sum'', [3, 3 :: i64])]"
  have c: "closure_from_targets enum_sorted 6 demo_store [Some 3] = Inr {0, 1, 2, 3}"
    by code_simp
  have r: "reach demo_store (target_set [Some 3]) = {0, 1, 2, 3}"
    using closure_from_targets_spec(1) [OF enumerates_sorted c] by simp
  have d: "distinct_names demo_store (reach demo_store (target_set [Some 3]))"
    unfolding r by code_simp
  have s: "simulate enum_rev ltr 10 demo_store [Some 3] 2 True = Inr (?H, demo_store)"
    by code_simp
  have e: "enum_rev {0, 1, 2, 3} = [3, 2, 1, 0]"
    by code_simp
  note t = history_keys_sorted_and_lengths [OF enumerates_rev s]
  from t have 1: "sorted_wrt (<) [''a'', ''acc'', ''b'', ''sum'']" by simp
  from t have 2: "(\<lambda>w. name (demo_store ! w)) ` reach demo_store (target_set [Some 3])
       = {''a'', ''acc'', ''b'', ''sum''}" by auto
  from t d have "\<forall>k vs. (k, vs) \<in> set ?H \<longrightarrow> length vs = nat 2" by blast
  then have 3: "map (\<lambda>(k, vs). length vs) ?H = [nat 2, nat 2, nat 2, nat 2]" by simp
  from enumerates_rev s d 1 2 3 e show ?thesis by blast
qed

text \<open>The claim as stated fails when two closure wires carry one name: both append to
  the same entry, which then holds two values after one cycle.\<close>

theorem history_length_counterexample:
  "simulate enum_sorted ltr 5 dup_store [Some 0, Some 1] 1 True
     = Inr ([(''x'', [1, 2])], dup_store)
   \<and> length (history_of [(''x'', [1, 2])] ''x'') \<noteq> nat 1"
  by code_simp

section \<open>Registered updates\<close>




end
